theory Spec2Isabelle
  imports Main "HOL-Library.Word" "HOL-Library.Multiset"
begin

section \<open>Package scenario: sleep strategies\<close>

text \<open>
  Go's \<open>int\<close> is 64 bits wide on the supported platforms. It is modelled as \<open>int\<close>, and
  every arithmetic operation of the source that can leave the range is wrapped by
  \<open>wrap64\<close> (two's complement).
\<close>

definition wrap64 :: "int \<Rightarrow> int" where
  "wrap64 x = (x + 2 ^ 63) mod 2 ^ 64 - 2 ^ 63"

definition clamp64 :: "int \<Rightarrow> int" where
  "clamp64 x = (if x > 2 ^ 63 - 1 then 2 ^ 63 - 1 else if x < - (2 ^ 63) then - (2 ^ 63) else x)"

text \<open>
  \<open>strings.Split(s, "-")\<close> for the one-byte separator the source uses: the pieces between
  the separators, \<open>n + 1\<close> of them for \<open>n\<close> separators.
\<close>

fun Split :: "string \<Rightarrow> char \<Rightarrow> string list" where
  "Split [] sep = [[]]"
| "Split (c # cs) sep =
     (if c = sep then [] # Split cs sep
      else (case Split cs sep of
              [] \<Rightarrow> [[c]]
            | p # ps \<Rightarrow> (c # p) # ps))"

definition isDigit :: "char \<Rightarrow> bool" where
  "isDigit c = (48 \<le> (of_char c :: nat) \<and> (of_char c :: nat) \<le> 57)"

fun digitsVal :: "int \<Rightarrow> string \<Rightarrow> int" where
  "digitsVal acc [] = acc"
| "digitsVal acc (c # cs) = digitsVal (acc * 10 + (int (of_char c) - 48)) cs"

text \<open>
  \<open>strconv.Atoi\<close> with its error dropped, as the source calls it (\<open>min, _ := strconv.Atoi(..)\<close>):
  an optional sign and at least one decimal digit; a syntax error gives 0, a value out of
  range gives the nearest bound.
\<close>

definition Atoi :: "string \<Rightarrow> int" where
  "Atoi s =
     (case s of
        [] \<Rightarrow> 0
      | c # cs \<Rightarrow>
          (let neg = (c = CHR ''-'');
               ds = (if c = CHR ''-'' \<or> c = CHR ''+'' then cs else s)
           in if ds = [] \<or> \<not> list_all isDigit ds then 0
              else clamp64 (if neg then - digitsVal 0 ds else digitsVal 0 ds)))"

text \<open>
  The two implementations of the interface \<open>Sleeper\<close>; a nil interface value is \<open>None\<close>.
\<close>

datatype Sleeper =
    RangeSleep (rs_min: int) (rs_max: int)
  | DurationSleep (ds_duration: int)

definition newSleeper :: "string \<Rightarrow> Sleeper option" where
  "newSleeper sleepStr =
     (if sleepStr = [] then None
      else (let s = Split sleepStr (CHR ''-'') in
            if length s = 2 then
              (let mn = Atoi (s ! 0); mx = Atoi (s ! 1) in
               if mn > mx then Some (RangeSleep mx mn) else Some (RangeSleep mn mx))
            else Some (DurationSleep (Atoi (s ! 0)))))"

datatype panic =
    IntnNonPositive
  | AssignToNilMap
  | TypeAssertion
  | NilDereference

text \<open>
  \<open>sleep()\<close> returns the \<open>time.Duration\<close> (nanoseconds) it hands to \<open>time.Sleep\<close>.
  \<open>rand.Intn n\<close> panics for \<open>n \<le> 0\<close> and otherwise returns a pseudo-random number of the
  half-open interval \<open>[0, n)\<close>; the generator is the parameter \<open>intn\<close>.
\<close>

definition Millisecond :: int where
  "Millisecond = 1000000"

fun sleep :: "(int \<Rightarrow> int) \<Rightarrow> Sleeper \<Rightarrow> panic + int" where
  "sleep intn (RangeSleep mn mx) =
     (let n = wrap64 (wrap64 (mx - mn) + 1) in
      if n \<le> 0 then Inl IntnNonPositive
      else (let dur = wrap64 (intn n + mn) in Inr (wrap64 (dur * Millisecond))))"
| "sleep intn (DurationSleep d) = Inr (wrap64 (d * Millisecond))"

section \<open>Package types: the values the engine exchanges\<close>

text \<open>
  The declarations of package \<open>types\<close> are read off the way the source uses them.
  \<open>RequestError.Type\<close> ranges over the error kinds; the source names three of them.
  A value of type \<open>interface{}\<close> carries its dynamic type: nil, a \<open>string\<close>, an
  \<open>http.Header\<close>, or a value of any other type.
\<close>

datatype ErrorType =
    NoError
  | ErrorProxy
  | ErrorIntented
  | ErrorUnkown
  | ErrorOther string

record RequestError =
  Type :: ErrorType
  Reason :: string

type_synonym Header = "string \<rightharpoonup> string list"

datatype iface =
    INil
  | IString string
  | IHeader Header
  | IOther string

type_synonym proxy = nat

type_synonym uint16 = "16 word"

record ScenarioStepResult =
  StepID :: uint16
  StepName :: string
  Err :: RequestError
  DebugInfo :: "string \<rightharpoonup> iface"

record ScenarioResult =
  StartTime :: int
  ProxyAddr :: proxy
  StepResults :: "ScenarioStepResult list"

record ScenarioItem =
  ID :: uint16
  Sleep :: string

record Scenario =
  Steps :: "ScenarioItem list"

section \<open>Package scenario: the requester pool and the engine\<close>

text \<open>
  The engine's collaborators are parameters, and \<open>'w\<close> is the state of the world outside
  the engine. The three operations of the requester thread it; a requester value \<open>'r\<close> is
  the handle the interface value holds. \<open>NewRequester\<close> and \<open>Init\<close> return an error
  message or none; \<open>Send\<close> returns a result (a pointer that is not nil).
  \<open>rand_Intn w n\<close> is what \<open>rand.Intn(n)\<close> returns in the world \<open>w\<close>, right after
  \<open>rand.Seed(time.Now().UnixNano())\<close>; \<open>time_Sleep d w\<close> is the world after
  \<open>time.Sleep(d)\<close>.
\<close>

record ('r, 'w) externals =
  NewRequester :: "ScenarioItem \<Rightarrow> 'w \<Rightarrow> (string + 'r) \<times> 'w"
  Requester_Init :: "'r \<Rightarrow> ScenarioItem \<Rightarrow> proxy \<Rightarrow> bool \<Rightarrow> 'w \<Rightarrow> string option \<times> 'w"
  Requester_Send :: "'r \<Rightarrow> 'w \<Rightarrow> ScenarioStepResult \<times> 'w"
  rand_Intn :: "'w \<Rightarrow> int \<Rightarrow> int"
  time_Sleep :: "int \<Rightarrow> 'w \<Rightarrow> 'w"

record 'r scenarioItemRequester =
  scenarioItemID :: uint16
  sleeper :: "Sleeper option"
  requester :: 'r

text \<open>
  \<open>clients\<close> is \<open>None\<close> while the Go map is nil (before \<open>Init\<close>); reading a nil map
  finds nothing, assigning to it panics. The context and the mutex have no part in a
  sequential run and are left out.
\<close>

record 'r ScenarioService =
  clients :: "(proxy \<rightharpoonup> 'r scenarioItemRequester list) option"
  scenario :: Scenario
  debug :: bool

definition NewScenarioService :: "'r ScenarioService" where
  "NewScenarioService = \<lparr>clients = None, scenario = \<lparr>Steps = []\<rparr>, debug = False\<rparr>"

definition lookupClients :: "'r ScenarioService \<Rightarrow> proxy \<Rightarrow> 'r scenarioItemRequester list option" where
  "lookupClients s p = (case clients s of None \<Rightarrow> None | Some m \<Rightarrow> m p)"

text \<open>
  The loop of \<open>createRequesters\<close> over the steps, on the (non-nil) map. A failing
  \<open>NewRequester\<close> returns before the append, a failing \<open>Init\<close> after it.
\<close>

fun createLoop ::
  "('r, 'w) externals \<Rightarrow> proxy \<Rightarrow> bool \<Rightarrow> ScenarioItem list \<Rightarrow>
   (proxy \<rightharpoonup> 'r scenarioItemRequester list) \<Rightarrow> 'w \<Rightarrow>
   string option \<times> (proxy \<rightharpoonup> 'r scenarioItemRequester list) \<times> 'w" where
  "createLoop E p dbg [] m w = (None, m, w)"
| "createLoop E p dbg (si # sis) m w =
     (case NewRequester E si w of
        (Inl e, w1) \<Rightarrow> (Some e, m, w1)
      | (Inr r, w1) \<Rightarrow>
          (let m1 = m(p \<mapsto> (case m p of None \<Rightarrow> [] | Some rs \<Rightarrow> rs) @
                          [\<lparr>scenarioItemID = ID si, sleeper = newSleeper (Sleep si),
                            requester = r\<rparr>])
           in case Requester_Init E r si p dbg w1 of
                (Some e, w2) \<Rightarrow> (Some e, m1, w2)
              | (None, w2) \<Rightarrow> createLoop E p dbg sis m1 w2))"

definition createRequesters ::
  "('r, 'w) externals \<Rightarrow> 'r ScenarioService \<Rightarrow> proxy \<Rightarrow> 'w \<Rightarrow>
   panic + (string option \<times> 'r ScenarioService \<times> 'w)" where
  "createRequesters E s p w =
     (case clients s of
        None \<Rightarrow> Inl AssignToNilMap
      | Some m \<Rightarrow>
          (case createLoop E p (debug s) (Steps (scenario s)) (m(p \<mapsto> [])) w of
             (err, m', w') \<Rightarrow> Inr (err, s\<lparr>clients := Some m'\<rparr>, w')))"

text \<open>
  The Go result pair \<open>(requesters, err)\<close> is kept as a pair; a nil slice is \<open>[]\<close>.
\<close>

definition getOrCreateRequesters ::
  "('r, 'w) externals \<Rightarrow> 'r ScenarioService \<Rightarrow> proxy \<Rightarrow> 'w \<Rightarrow>
   panic + (('r scenarioItemRequester list \<times> string option) \<times> 'r ScenarioService \<times> 'w)" where
  "getOrCreateRequesters E s p w =
     (case lookupClients s p of
        Some rs \<Rightarrow> Inr ((rs, None), s, w)
      | None \<Rightarrow>
          (case createRequesters E s p w of
             Inl pn \<Rightarrow> Inl pn
           | Inr (Some e, s1, w1) \<Rightarrow> Inr (([], Some e), s1, w1)
           | Inr (None, s1, w1) \<Rightarrow>
               Inr (((case lookupClients s1 p of None \<Rightarrow> [] | Some rs \<Rightarrow> rs), None), s1, w1)))"

fun initLoop ::
  "('r, 'w) externals \<Rightarrow> 'r ScenarioService \<Rightarrow> proxy list \<Rightarrow> 'w \<Rightarrow>
   panic + (string option \<times> 'r ScenarioService \<times> 'w)" where
  "initLoop E s [] w = Inr (None, s, w)"
| "initLoop E s (p # ps) w =
     (case createRequesters E s p w of
        Inl pn \<Rightarrow> Inl pn
      | Inr (Some e, s1, w1) \<Rightarrow> Inr (Some e, s1, w1)
      | Inr (None, s1, w1) \<Rightarrow> initLoop E s1 ps w1)"

definition Init ::
  "('r, 'w) externals \<Rightarrow> 'r ScenarioService \<Rightarrow> Scenario \<Rightarrow> proxy list \<Rightarrow> bool \<Rightarrow> 'w \<Rightarrow>
   panic + (string option \<times> 'r ScenarioService \<times> 'w)" where
  "Init E s sc proxies dbg w =
     initLoop E (s\<lparr>scenario := sc, debug := dbg, clients := Some Map.empty\<rparr>) proxies w"

text \<open>
  What a run does to the outside is recorded as a trace: one event for every call of
  \<open>Send\<close> (with the pool entry's step ID and the result it returned) and one for every
  call of \<open>sleep\<close> that returned, in the order the loop makes them. A panic leaves the
  loop with the world and the trace it had reached.
\<close>

datatype event =
    EvSend uint16 ScenarioStepResult
  | EvSleep Sleeper

text \<open>
  The statement \<open>if sr.sleeper != nil && len(s.scenario.Steps) > 1 { sr.sleeper.sleep() }\<close>:
  the sleeper draws from \<open>rand.Intn\<close> and blocks in \<open>time.Sleep\<close>, or panics in
  \<open>rand.Intn\<close>.
\<close>

definition sleepBeforeNext ::
  "('r, 'w) externals \<Rightarrow> nat \<Rightarrow> 'r scenarioItemRequester \<Rightarrow> 'w \<Rightarrow> panic + ('w \<times> event list)" where
  "sleepBeforeNext E n sr w =
     (case sleeper sr of
        None \<Rightarrow> Inr (w, [])
      | Some sl \<Rightarrow>
          if n > 1
          then (case sleep (rand_Intn E w) sl of
                  Inl pn \<Rightarrow> Inl pn
                | Inr d \<Rightarrow> Inr (time_Sleep E d w, [EvSleep sl]))
          else Inr (w, []))"

text \<open>
  The loop of \<open>Do\<close> over the requesters: \<open>n\<close> is \<open>len(s.scenario.Steps)\<close>, \<open>resp\<close> and
  \<open>err\<close> are the named results. On \<open>ErrorIntented\<close> the loop returns before the append.
\<close>

fun doLoop ::
  "('r, 'w) externals \<Rightarrow> nat \<Rightarrow> 'r scenarioItemRequester list \<Rightarrow>
   ScenarioResult \<Rightarrow> RequestError option \<Rightarrow> 'w \<Rightarrow>
   (panic \<times> 'w \<times> event list) + (ScenarioResult \<times> RequestError option \<times> 'w \<times> event list)" where
  "doLoop E n [] resp err w = Inr (resp, err, w, [])"
| "doLoop E n (sr # rest) resp err w =
     (case Requester_Send E (requester sr) w of
        (res, w1) \<Rightarrow>
          (let err1 = (if Type (Err res) = ErrorProxy \<or> Type (Err res) = ErrorIntented
                       then Some (Err res) else err)
           in if Type (Err res) = ErrorIntented
              then Inr (resp, err1, w1, [EvSend (scenarioItemID sr) res])
              else (let resp1 = resp\<lparr>StepResults := StepResults resp @ [res]\<rparr>
                    in case sleepBeforeNext E n sr w1 of
                         Inl pn \<Rightarrow> Inl (pn, w1, [EvSend (scenarioItemID sr) res])
                       | Inr (w2, slp) \<Rightarrow>
                           (case doLoop E n rest resp1 err1 w2 of
                              Inl (pn, w', tr) \<Rightarrow>
                                Inl (pn, w', EvSend (scenarioItemID sr) res # slp @ tr)
                            | Inr (resp', err', w', tr) \<Rightarrow>
                                Inr (resp', err', w', EvSend (scenarioItemID sr) res # slp @ tr)))))"

definition Do ::
  "('r, 'w) externals \<Rightarrow> 'r ScenarioService \<Rightarrow> proxy \<Rightarrow> int \<Rightarrow> 'w \<Rightarrow>
   (panic \<times> 'w \<times> event list)
   + ((ScenarioResult option \<times> RequestError option) \<times> 'r ScenarioService \<times> 'w \<times> event list)" where
  "Do E s p startTime w =
     (let response = \<lparr>StartTime = startTime, ProxyAddr = p, StepResults = []\<rparr> in
      case getOrCreateRequesters E s p w of
        Inl pn \<Rightarrow> Inl (pn, w, [])
      | Inr ((requesters, Some e), s1, w1) \<Rightarrow>
          Inr ((None, Some \<lparr>Type = ErrorUnkown, Reason = e\<rparr>), s1, w1, [])
      | Inr ((requesters, None), s1, w1) \<Rightarrow>
          (case doLoop E (length (Steps (scenario s1))) requesters response None w1 of
             Inl (pn, w', tr) \<Rightarrow> Inl (pn, w', tr)
           | Inr (resp', err', w', tr) \<Rightarrow> Inr ((Some resp', err'), s1, w', tr)))"

fun sent :: "event list \<Rightarrow> ScenarioStepResult list" where
  "sent [] = []"
| "sent (EvSend i res # tr) = res # sent tr"
| "sent (EvSleep sl # tr) = sent tr"

fun sentIDs :: "event list \<Rightarrow> uint16 list" where
  "sentIDs [] = []"
| "sentIDs (EvSend i res # tr) = i # sentIDs tr"
| "sentIDs (EvSleep sl # tr) = sentIDs tr"

text \<open>
  The world after making exactly the calls of a trace on the requesters of a pool, in
  pool order, starting in the world \<open>w\<close>: every \<open>Send\<close> event must carry the step ID of
  the next pool entry and the result its requester returns in the world reached, and a
  sleep event must be the call of that entry's sleeper. \<open>None\<close> when the trace is not what
  the collaborators answer.
\<close>

fun replay ::
  "('r, 'w) externals \<Rightarrow> 'r scenarioItemRequester list \<Rightarrow> 'w \<Rightarrow> event list \<Rightarrow> 'w option" where
  "replay E rs w [] = Some w"
| "replay E [] w (ev # tr) = None"
| "replay E (sr # rest) w (EvSleep sl # tr) = None"
| "replay E (sr # rest) w (EvSend i res # tr) =
     (case Requester_Send E (requester sr) w of
        (res', w1) \<Rightarrow>
          if i = scenarioItemID sr \<and> res' = res
          then (case tr of
                  EvSleep sl # tr' \<Rightarrow>
                    (if sleeper sr = Some sl
                     then (case sleep (rand_Intn E w1) sl of
                             Inl pn \<Rightarrow> None
                           | Inr d \<Rightarrow> replay E rest (time_Sleep E d w1) tr')
                     else None)
                | _ \<Rightarrow> replay E rest w1 tr)
          else None)"

text \<open>
  A sleeper whose \<open>sleep()\<close> cannot panic: the argument it hands to \<open>rand.Intn\<close> is
  positive.
\<close>

definition sleepReturns :: "Sleeper \<Rightarrow> bool" where
  "sleepReturns sl =
     (case sl of
        RangeSleep mn mx \<Rightarrow> 0 < wrap64 (wrap64 (mx - mn) + 1)
      | DurationSleep d \<Rightarrow> True)"

text \<open>
  The trace and the world a run of the loop or of \<open>Do\<close> ends with, whether it returns
  or panics.
\<close>

definition endTrace ::
  "(panic \<times> 'w \<times> event list) + ('a \<times> 'b \<times> 'w \<times> event list) \<Rightarrow> event list" where
  "endTrace out = (case out of Inl (pn, w, tr) \<Rightarrow> tr | Inr (r, e, w, tr) \<Rightarrow> tr)"

definition endWorld ::
  "(panic \<times> 'w \<times> event list) + ('a \<times> 'b \<times> 'w \<times> event list) \<Rightarrow> 'w" where
  "endWorld out = (case out of Inl (pn, w, tr) \<Rightarrow> w | Inr (r, e, w, tr) \<Rightarrow> w)"

text \<open>
  The loop's test for an error that \<open>Do\<close> records:
  \<open>res.Err.Type == types.ErrorProxy || res.Err.Type == types.ErrorIntented\<close>.
\<close>

definition recorded :: "ScenarioStepResult \<Rightarrow> bool" where
  "recorded res = (Type (Err res) = ErrorProxy \<or> Type (Err res) = ErrorIntented)"

text \<open>
  A pool entry as \<open>createRequesters\<close> builds it for a scenario step: it carries the
  step's ID, the sleeper \<open>newSleeper\<close> makes of the step's sleep specification, and a
  requester that \<open>NewRequester\<close> returns for the step.
\<close>

definition builtFor ::
  "('r, 'w) externals \<Rightarrow> ScenarioItem \<Rightarrow> 'r scenarioItemRequester \<Rightarrow> bool" where
  "builtFor E si e =
     (scenarioItemID e = ID si \<and> sleeper e = newSleeper (Sleep si)
      \<and> (\<exists>w0 w0'. NewRequester E si w0 = (Inr (requester e), w0')))"

section \<open>Package report: the final report\<close>

text \<open>
  The aggregated result as \<open>printDetails\<close> reads it. Go ranges over a map in an
  unspecified order, so each map is the list of its entries in the order the loop visits
  them; the keys of a map are distinct. The field \<open>StepResults\<close> of \<open>Result\<close> is named
  \<open>ResultStepResults\<close>, the name being taken by \<open>ScenarioResult\<close>.
\<close>

record 'f ScenarioStepResultSummary =
  Name :: string
  SuccessCount :: int
  FailedCount :: int
  Durations :: "(string \<times> 'f) list"
  StatusCodeDist :: "(int \<times> int) list"
  ErrorDist :: "(string \<times> int) list"

record 'f Result =
  ResultStepResults :: "(uint16 \<times> 'f ScenarioStepResultSummary) list"

text \<open>
  The methods \<open>successPercentage\<close> and \<open>failedPercentage\<close> of a summary are declared
  outside the source file, and \<open>http.StatusText\<close> is the library's: the three are
  parameters.
\<close>

record 'f report_pkg =
  successPercentage :: "'f ScenarioStepResultSummary \<Rightarrow> int"
  failedPercentage :: "'f ScenarioStepResultSummary \<Rightarrow> int"
  StatusText :: "int \<Rightarrow> string"

record 'f duration =
  name :: string
  duration :: 'f
  order :: int

definition keyToStr :: "(string \<times> string \<times> int) list" where
  "keyToStr =
     [(''dnsDuration'', ''DNS'', 1),
      (''connDuration'', ''Connection'', 2),
      (''tlsDuration'', ''TLS'', 3),
      (''reqDuration'', ''Request Write'', 4),
      (''serverProcessDuration'', ''Server Processing'', 5),
      (''resDuration'', ''Response Read'', 6),
      (''duration'', ''Total'', 7)]"

text \<open>
  The loop body \<open>dur := keyToStr[d]; dur.duration = s\<close>. A key that is not in
  \<open>keyToStr\<close> reads the zero value: the empty name and order 0.
\<close>

definition durationOf :: "string \<times> 'f \<Rightarrow> 'f duration" where
  "durationOf ds =
     (case map_of keyToStr (fst ds) of
        None \<Rightarrow> \<lparr>name = [], duration = snd ds, order = 0\<rparr>
      | Some (nm, ord) \<Rightarrow> \<lparr>name = nm, duration = snd ds, order = ord\<rparr>)"

text \<open>
  \<open>sort.Slice\<close> with \<open>durationList[i].order < durationList[j].order\<close>. Go does not
  promise a stable sort; the model sorts stably, and lemma \<open>phases_any_sort\<close> below holds
  for every sorted permutation, so the phase order proved does not rest on this choice.
\<close>

definition sortSlice :: "'f duration list \<Rightarrow> 'f duration list" where
  "sortSlice durationList = sort_key order durationList"

text \<open>
  The decimal digits \<open>%d\<close> prints.
\<close>

fun natDigits :: "nat \<Rightarrow> string" where
  "natDigits n =
     (if n < 10 then [''0123456789'' ! n]
      else natDigits (n div 10) @ [''0123456789'' ! (n mod 10)])"

declare natDigits.simps [simp del]

definition Itoa :: "int \<Rightarrow> string" where
  "Itoa k = (if k < 0 then CHR ''-'' # natDigits (nat (- k)) else natDigits (nat k))"

text \<open>
  The header text is \<open>v.Name\<close>, or \<open>Step k\<close> for an empty name.
\<close>

definition stepHeader :: "int \<Rightarrow> 'f ScenarioStepResultSummary \<Rightarrow> string" where
  "stepHeader k v = (if Name v = [] then ''Step '' @ Itoa k else Name v)"

text \<open>
  The report is the sequence of the \<open>Fprintf\<close> and \<open>Fprintln\<close> calls on the tabwriter,
  each with its arguments; column layout and number formatting are not modelled. The
  header line holds \<open>k\<close> and the format string of its \<open>Fprintf\<close>, into which the source
  splices the header text (a \<open>%\<close> in a step name is read as the start of a verb).
\<close>

datatype 'f line =
    Text string
  | StepHeader int string
  | SuccessCountLine int int
  | FailedCountLine int int
  | DurationLine string 'f
  | StatusCodeLine int string int
  | ErrorLine int string

definition printSection ::
  "'f report_pkg \<Rightarrow> nat \<Rightarrow> int \<Rightarrow> 'f ScenarioStepResultSummary \<Rightarrow> 'f line list" where
  "printSection P nkeys k v =
     (if nkeys > 1
      then [StepHeader k (CHR 0x0A # ''%d. '' @ stepHeader k v @ [CHR 0x0A]),
            Text ''---------------------------------'']
      else [])
     @ [SuccessCountLine (SuccessCount v) (successPercentage P v),
        FailedCountLine (FailedCount v) (failedPercentage P v),
        Text (CHR 0x0A # ''Durations (Avg):'')]
     @ map (\<lambda>d. DurationLine (name d) (duration d)) (sortSlice (map durationOf (Durations v)))
     @ (if length (StatusCodeDist v) > 0
        then Text (CHR 0x0A # ''Status Code (Message) :Count'')
             # map (\<lambda>(s, c). StatusCodeLine s (StatusText P s) c) (StatusCodeDist v)
        else [])
     @ (if length (ErrorDist v) > 0
        then Text (CHR 0x0A # ''Error Distribution (Count:Reason):'')
             # map (\<lambda>(e, c). ErrorLine c e) (ErrorDist v)
        else [])
     @ [Text []]"

text \<open>
  The loop over the sorted keys. \<open>s.result.StepResults[uint16(k)]\<close> is a pointer; for a
  key without entry it is nil and \<open>v.Name\<close> panics.
\<close>

fun printSections ::
  "'f report_pkg \<Rightarrow> (uint16 \<times> 'f ScenarioStepResultSummary) list \<Rightarrow> nat \<Rightarrow> int list \<Rightarrow>
   panic + 'f line list" where
  "printSections P m nkeys [] = Inr []"
| "printSections P m nkeys (k # ks) =
     (case map_of m (word_of_int k) of
        None \<Rightarrow> Inl NilDereference
      | Some v \<Rightarrow>
          (case printSections P m nkeys ks of
             Inl pn \<Rightarrow> Inl pn
           | Inr out \<Rightarrow> Inr (printSection P nkeys k v @ out)))"

definition printDetails :: "'f report_pkg \<Rightarrow> 'f Result \<Rightarrow> panic + 'f line list" where
  "printDetails P r =
     (let keys = sort (map (\<lambda>kv. uint (fst kv)) (ResultStepResults r)) in
      case printSections P (ResultStepResults r) (length keys) keys of
        Inl pn \<Rightarrow> Inl pn
      | Inr out \<Rightarrow>
          Inr ([Text (CHR 0x0A # CHR 0x0A # ''RESULT''),
                Text ''-------------------------------------''] @ out))"

text \<open>
  What a reader sees of the order: the step IDs of the header lines and the phase names
  of the duration lines, as printed from top to bottom.
\<close>

fun headerIDs :: "'f line list \<Rightarrow> int list" where
  "headerIDs [] = []"
| "headerIDs (StepHeader k h # ls) = k # headerIDs ls"
| "headerIDs (l # ls) = headerIDs ls"

fun durationNames :: "'f line list \<Rightarrow> string list" where
  "durationNames [] = []"
| "durationNames (DurationLine nm d # ls) = nm # durationNames ls"
| "durationNames (l # ls) = durationNames ls"

definition presentationOrder :: "string list" where
  "presentationOrder = [''DNS'', ''Connection'', ''TLS'', ''Request Write'',
                        ''Server Processing'', ''Response Read'', ''Total'']"

definition nameOfOrder :: "int \<Rightarrow> string" where
  "nameOfOrder i = presentationOrder ! nat (i - 1)"

definition preamble :: "'f line list" where
  "preamble = [Text (CHR 0x0A # CHR 0x0A # ''RESULT''), Text ''-------------------------------------'']"

definition stepKey :: "uint16 \<times> 'f ScenarioStepResultSummary \<Rightarrow> int" where
  "stepKey kv = uint (fst kv)"

text \<open>
  The names of \<open>keyToStr\<close>, in the table's order, of the phases that are keys of a
  duration map.
\<close>

definition presentPhases :: "(string \<times> 'f) list \<Rightarrow> string list" where
  "presentPhases durs = map (\<lambda>e. fst (snd e)) (filter (\<lambda>e. fst e \<in> fst ` set durs) keyToStr)"

text \<open>
  The two lines printed under \<open>len(keys) > 1\<close>.
\<close>

definition headerLines :: "int \<Rightarrow> 'f ScenarioStepResultSummary \<Rightarrow> 'f line list" where
  "headerLines k v =
     [StepHeader k (CHR 0x0A # ''%d. '' @ stepHeader k v @ [CHR 0x0A]),
      Text ''---------------------------------'']"

section \<open>Package report: the debug transcript\<close>

text \<open>
  \<open>ScenarioStepResultToVerboseHttpRequestInfo\<close> is declared outside the source file: it
  is the parameter \<open>toVerbose\<close>, and its result type is read off the fields that
  \<open>printInDebugMode\<close> uses (\<open>verboseInfo.Request.Url\<close> is \<open>Request_Url\<close>, and so on).
  The two bodies are of type \<open>interface{}\<close>.
\<close>

record verboseHttpRequestInfo =
  StepId :: uint16
  VerboseStepName :: string
  Request_Url :: string
  Request_Method :: string
  Request_Headers :: "(string \<times> string) list"
  Request_Body :: iface
  Response_StatusCode :: int
  Response_Headers :: "(string \<times> string) list"
  Response_Body :: iface
  Error :: string

text \<open>
  \<open>strings.Contains\<close>, by way of \<open>strings.HasPrefix\<close> at every position.
\<close>

fun HasPrefix :: "string \<Rightarrow> string \<Rightarrow> bool" where
  "HasPrefix s [] = True"
| "HasPrefix [] (p # ps) = False"
| "HasPrefix (c # cs) (p # ps) = (c = p \<and> HasPrefix cs ps)"

fun Contains :: "string \<Rightarrow> string \<Rightarrow> bool" where
  "Contains [] substr = (substr = [])"
| "Contains (c # cs) substr = (HasPrefix (c # cs) substr \<or> Contains cs substr)"

text \<open>
  \<open>http.Header.Get("content-type")\<close>: the first value under the canonical key
  \<open>Content-Type\<close>, the empty string when there is none.
\<close>

definition Get_content_type :: "Header \<Rightarrow> string" where
  "Get_content_type h =
     (case h ''Content-Type'' of
        None \<Rightarrow> []
      | Some [] \<Rightarrow> []
      | Some (v # vs) \<Rightarrow> v)"

text \<open>
  The type assertion \<open>x.(http.Header)\<close> on a map entry: a missing entry reads as the nil
  interface, and the assertion panics on nil and on every other dynamic type.
\<close>

definition assertHeader :: "iface option \<Rightarrow> panic + Header" where
  "assertHeader x = (case x of Some (IHeader h) \<Rightarrow> Inr h | _ \<Rightarrow> Inl TypeAssertion)"

text \<open>
  The transcript is the sequence of writes, each with its arguments.
\<close>

datatype dline =
    DStep uint16 string
  | DText string
  | DTarget string
  | DMethod string
  | DRequestHeader string string
  | DResponseHeader string string
  | DBodyJSON iface
  | DBodyText string
  | DError string
  | DStatusCode int

text \<open>
  \<open>printBody\<close>: \<open>json.MarshalIndent\<close> takes any value and its error is dropped; the
  other branch asserts \<open>body.(string)\<close>.
\<close>

definition printBody :: "string \<Rightarrow> iface \<Rightarrow> panic + dline list" where
  "printBody contentType body =
     (if Contains contentType ''application/json'' then Inr [DBodyJSON body]
      else (case body of
              IString s \<Rightarrow> Inr [DBodyText s]
            | _ \<Rightarrow> Inl TypeAssertion))"

definition printStep ::
  "(ScenarioStepResult \<Rightarrow> verboseHttpRequestInfo) \<Rightarrow> ScenarioStepResult \<Rightarrow> panic + dline list" where
  "printStep toVerbose sr =
     (let verboseInfo = toVerbose sr;
          request = [DStep (StepId verboseInfo) (VerboseStepName verboseInfo),
                     DText ''-------------------------------------'',
                     DText ''***********  REQUEST  ***********'',
                     DTarget (Request_Url verboseInfo),
                     DMethod (Request_Method verboseInfo),
                     DText ''Request Headers: '']
                    @ map (\<lambda>(hKey, hVal). DRequestHeader hKey hVal) (Request_Headers verboseInfo)
      in case assertHeader (DebugInfo sr ''requestHeaders'') of
           Inl pn \<Rightarrow> Inl pn
         | Inr reqHeaders \<Rightarrow>
             (case printBody (Get_content_type reqHeaders) (Request_Body verboseInfo) of
                Inl pn \<Rightarrow> Inl pn
              | Inr reqBody \<Rightarrow>
                  if Error verboseInfo \<noteq> []
                  then Inr (request @ [DText ''Request Body: ''] @ reqBody
                            @ [DError (Error verboseInfo), DText []])
                  else
                    (case assertHeader (DebugInfo sr ''responseHeaders'') of
                       Inl pn \<Rightarrow> Inl pn
                     | Inr respHeaders \<Rightarrow>
                         (case printBody (Get_content_type respHeaders) (Response_Body verboseInfo) of
                            Inl pn \<Rightarrow> Inl pn
                          | Inr respBody \<Rightarrow>
                              Inr (request @ [DText ''Request Body: ''] @ reqBody
                                   @ [DText (CHR 0x0A # ''***********  RESPONSE  ***********''),
                                      DStatusCode (Response_StatusCode verboseInfo),
                                      DText ''Response Headers: '']
                                   @ map (\<lambda>(hKey, hVal). DResponseHeader hKey hVal)
                                       (Response_Headers verboseInfo)
                                   @ [DText ''Response Body: ''] @ respBody @ [DText []])))))"

text \<open>
  The loops over the results of the channel and over their steps, after the two opening
  lines (their emoji left out); a panic ends the run.
\<close>

fun printSteps ::
  "(ScenarioStepResult \<Rightarrow> verboseHttpRequestInfo) \<Rightarrow> ScenarioStepResult list \<Rightarrow> panic + dline list" where
  "printSteps toVerbose [] = Inr []"
| "printSteps toVerbose (sr # srs) =
     (case printStep toVerbose sr of
        Inl pn \<Rightarrow> Inl pn
      | Inr out \<Rightarrow>
          (case printSteps toVerbose srs of
             Inl pn \<Rightarrow> Inl pn
           | Inr rest \<Rightarrow> Inr (out @ rest)))"

definition printInDebugMode ::
  "(ScenarioStepResult \<Rightarrow> verboseHttpRequestInfo) \<Rightarrow> ScenarioResult list \<Rightarrow> panic + dline list" where
  "printInDebugMode toVerbose input =
     (case printSteps toVerbose (concat (map StepResults input)) of
        Inl pn \<Rightarrow> Inl pn
      | Inr out \<Rightarrow> Inr ([DText ''Engine fired. '', DText ''CTRL+C to gracefully stop.''] @ out))"

text \<open>
  The precondition of claim C10, in the claim's words: the request headers are an
  \<open>http.Header\<close>; the request body is a string unless the request content type contains
  \<open>application/json\<close>; and, when the step did not error, the same holds of the response
  headers and body.
\<close>

definition isHeader :: "iface option \<Rightarrow> bool" where
  "isHeader x = (case x of Some (IHeader h) \<Rightarrow> True | _ \<Rightarrow> False)"

definition isString :: "iface \<Rightarrow> bool" where
  "isString x = (case x of IString s \<Rightarrow> True | _ \<Rightarrow> False)"

definition contentTypeOf :: "iface option \<Rightarrow> string" where
  "contentTypeOf x = (case x of Some (IHeader h) \<Rightarrow> Get_content_type h | _ \<Rightarrow> [])"

definition debugPrecondition :: "verboseHttpRequestInfo \<Rightarrow> ScenarioStepResult \<Rightarrow> bool" where
  "debugPrecondition verboseInfo sr =
     (isHeader (DebugInfo sr ''requestHeaders'')
      \<and> (Contains (contentTypeOf (DebugInfo sr ''requestHeaders'')) ''application/json''
           \<or> isString (Request_Body verboseInfo))
      \<and> (Error verboseInfo \<noteq> []
           \<or> (isHeader (DebugInfo sr ''responseHeaders'')
               \<and> (Contains (contentTypeOf (DebugInfo sr ''responseHeaders'')) ''application/json''
                    \<or> isString (Response_Body verboseInfo)))))"

section \<open>Example scenarios and stub requesters\<close>

text \<open>
  A stub requester package: construction succeeds, \<open>Init\<close> fails where \<open>initFails\<close>
  says so, and \<open>Send\<close> returns a result whose error kind is chosen per step by \<open>kind\<close>
  and counts the calls in the world state. The requester's handle is its step ID.
  \<open>rand.Intn\<close> returns 0 and \<open>time.Sleep\<close> leaves the world as it is.
\<close>

definition stubResult :: "(uint16 \<Rightarrow> ErrorType) \<Rightarrow> uint16 \<Rightarrow> ScenarioStepResult" where
  "stubResult kind r =
     \<lparr>StepID = r, StepName = [], Err = \<lparr>Type = kind r, Reason = []\<rparr>, DebugInfo = Map.empty\<rparr>"

definition stubPkg ::
  "(uint16 \<Rightarrow> ErrorType) \<Rightarrow> (uint16 \<Rightarrow> proxy \<Rightarrow> bool) \<Rightarrow> (uint16, nat) externals" where
  "stubPkg kind initFails =
     \<lparr>NewRequester = (\<lambda>si w. (Inr (ID si), w)),
      Requester_Init = (\<lambda>r si p dbg w. (if initFails (ID si) p then Some ''init failed'' else None, w)),
      Requester_Send = (\<lambda>r w. (stubResult kind r, Suc w)),
      rand_Intn = (\<lambda>w n. 0),
      time_Sleep = (\<lambda>d w. w)\<rparr>"

definition scenario3 :: Scenario where
  "scenario3 = \<lparr>Steps = [\<lparr>ID = 1, Sleep = ''100''\<rparr>, \<lparr>ID = 2, Sleep = ''''\<rparr>,
                          \<lparr>ID = 3, Sleep = ''10-20''\<rparr>]\<rparr>"

definition service3 :: "uint16 ScenarioService" where
  "service3 = \<lparr>clients = Some Map.empty, scenario = scenario3, debug = False\<rparr>"

definition intendedAt2 :: "uint16 \<Rightarrow> ErrorType" where
  "intendedAt2 i = (if i = 2 then ErrorIntented else NoError)"

definition neverFails :: "uint16 \<Rightarrow> proxy \<Rightarrow> bool" where
  "neverFails i p = False"

text \<open>
  A scenario of two steps whose first step sleeps for a range covering all of int64, and
  the pool built for it.
\<close>

definition scenarioHuge :: Scenario where
  "scenarioHuge = \<lparr>Steps = [\<lparr>ID = 1, Sleep = ''0-9223372036854775807''\<rparr>, \<lparr>ID = 2, Sleep = ''''\<rparr>]\<rparr>"

definition serviceHuge :: "uint16 ScenarioService" where
  "serviceHuge = \<lparr>clients = Some Map.empty, scenario = scenarioHuge, debug = False\<rparr>"

definition poolHuge :: "uint16 scenarioItemRequester list" where
  "poolHuge = [\<lparr>scenarioItemID = 1, sleeper = Some (RangeSleep 0 9223372036854775807), requester = 1\<rparr>,
               \<lparr>scenarioItemID = 2, sleeper = None, requester = 2\<rparr>]"

definition proxyAt1 :: "uint16 \<Rightarrow> ErrorType" where
  "proxyAt1 i = (if i = 1 then ErrorProxy else NoError)"

definition noErrors :: "uint16 \<Rightarrow> ErrorType" where
  "noErrors i = NoError"

definition failsAt2On9 :: "uint16 \<Rightarrow> proxy \<Rightarrow> bool" where
  "failsAt2On9 i p = (i = 2 \<and> p = 9)"

definition pool3 :: "uint16 scenarioItemRequester list" where
  "pool3 = [\<lparr>scenarioItemID = 1, sleeper = Some (DurationSleep 100), requester = 1\<rparr>,
            \<lparr>scenarioItemID = 2, sleeper = None, requester = 2\<rparr>,
            \<lparr>scenarioItemID = 3, sleeper = Some (RangeSleep 10 20), requester = 3\<rparr>]"

definition partialPool :: "uint16 scenarioItemRequester list" where
  "partialPool = [\<lparr>scenarioItemID = 1, sleeper = Some (DurationSleep 100), requester = 1\<rparr>,
                  \<lparr>scenarioItemID = 2, sleeper = None, requester = 2\<rparr>]"

definition stubReport :: "int report_pkg" where
  "stubReport =
     \<lparr>successPercentage = (\<lambda>v. if SuccessCount v + FailedCount v = 0 then 0
                               else SuccessCount v * 100 div (SuccessCount v + FailedCount v)),
      failedPercentage = (\<lambda>v. if SuccessCount v + FailedCount v = 0 then 0
                              else FailedCount v * 100 div (SuccessCount v + FailedCount v)),
      StatusText = (\<lambda>s. if s = 200 then ''OK'' else [])\<rparr>"

definition summary1 :: "int ScenarioStepResultSummary" where
  "summary1 =
     \<lparr>Name = [], SuccessCount = 3, FailedCount = 0,
      Durations = [(''duration'', 50), (''dnsDuration'', 10), (''connDuration'', 20)],
      StatusCodeDist = [(200, 3)], ErrorDist = []\<rparr>"

definition summary2 :: "int ScenarioStepResultSummary" where
  "summary2 =
     \<lparr>Name = ''login'', SuccessCount = 1, FailedCount = 2,
      Durations = [(''duration'', 100)],
      StatusCodeDist = [(200, 1)], ErrorDist = [(''timeout'', 2)]\<rparr>"

definition result21 :: "int Result" where
  "result21 = \<lparr>ResultStepResults = [(2, summary2), (1, summary1)]\<rparr>"

definition result12 :: "int Result" where
  "result12 = \<lparr>ResultStepResults = [(1, summary1), (2, summary2)]\<rparr>"

definition result1 :: "int Result" where
  "result1 = \<lparr>ResultStepResults = [(1, summary1)]\<rparr>"

definition scenario1 :: Scenario where
  "scenario1 = \<lparr>Steps = [\<lparr>ID = 1, Sleep = ''100''\<rparr>]\<rparr>"

definition stubVerbose :: "ScenarioStepResult \<Rightarrow> verboseHttpRequestInfo" where
  "stubVerbose sr =
     \<lparr>StepId = StepID sr, VerboseStepName = StepName sr,
      Request_Url = ''http://localhost/'', Request_Method = ''GET'', Request_Headers = [],
      Request_Body = (case DebugInfo sr ''requestBody'' of None \<Rightarrow> INil | Some b \<Rightarrow> b),
      Response_StatusCode = 200, Response_Headers = [],
      Response_Body = (case DebugInfo sr ''responseBody'' of None \<Rightarrow> INil | Some b \<Rightarrow> b),
      Error = Reason (Err sr)\<rparr>"

definition debugStep :: "string \<Rightarrow> (string \<rightharpoonup> iface) \<Rightarrow> ScenarioStepResult" where
  "debugStep reason info =
     \<lparr>StepID = 1, StepName = [],
      Err = \<lparr>Type = (if reason = [] then NoError else ErrorUnkown), Reason = reason\<rparr>,
      DebugInfo = info\<rparr>"

definition plainHeader :: iface where
  "plainHeader = IHeader [''Content-Type'' \<mapsto> [''text/plain'']]"

definition jsonHeader :: iface where
  "jsonHeader = IHeader [''Content-Type'' \<mapsto> [''application/json; charset=utf-8'']]"

definition debugGood :: ScenarioStepResult where
  "debugGood = debugStep []
     [''requestHeaders'' \<mapsto> plainHeader, ''requestBody'' \<mapsto> IString ''a=1'',
      ''responseHeaders'' \<mapsto> jsonHeader, ''responseBody'' \<mapsto> IOther ''{}'']"

definition debugErrored :: ScenarioStepResult where
  "debugErrored = debugStep ''timeout''
     [''requestHeaders'' \<mapsto> plainHeader, ''requestBody'' \<mapsto> IString []]"

definition debugNoRequestHeaders :: ScenarioStepResult where
  "debugNoRequestHeaders = debugStep [] Map.empty"

definition debugNoResponseHeaders :: ScenarioStepResult where
  "debugNoResponseHeaders = debugStep []
     [''requestHeaders'' \<mapsto> plainHeader, ''requestBody'' \<mapsto> IString []]"

definition debugBodyNotString :: ScenarioStepResult where
  "debugBodyNotString = debugStep ''timeout''
     [''requestHeaders'' \<mapsto> plainHeader, ''requestBody'' \<mapsto> IOther ''[]byte'']"

definition debugRun :: "ScenarioStepResult list \<Rightarrow> ScenarioResult list" where
  "debugRun srs = [\<lparr>StartTime = 0, ProxyAddr = 0, StepResults = srs\<rparr>]"

section \<open>Properties\<close>

subsection \<open>Sleep strategies\<close>

lemma Split_500_100: "Split ''500-100'' (CHR ''-'') = [''500'', ''100'']"
  by simp

lemma Split_100_500: "Split ''100-500'' (CHR ''-'') = [''100'', ''500'']"
  by simp

lemma Atoi_500: "Atoi ''500'' = 500"
  by (simp add: Atoi_def isDigit_def clamp64_def)

lemma Atoi_100: "Atoi ''100'' = 100"
  by (simp add: Atoi_def isDigit_def clamp64_def)

lemma newSleeper_500_100: "newSleeper ''500-100'' = Some (RangeSleep 100 500)"
  by (simp add: newSleeper_def Atoi_500 Atoi_100 Let_def del: Split.simps add: Split_500_100)

lemma newSleeper_100_500: "newSleeper ''100-500'' = Some (RangeSleep 100 500)"
  by (simp add: newSleeper_def Atoi_500 Atoi_100 Let_def del: Split.simps add: Split_100_500)

lemma wrap64_id: "- (2 ^ 63) \<le> x \<Longrightarrow> x < 2 ^ 63 \<Longrightarrow> wrap64 x = x"
  by (simp add: wrap64_def)

lemma Split_no_sep: "sep \<notin> set b \<Longrightarrow> Split b sep = [b]"
  by (induction b) auto

lemma Split_two: "sep \<notin> set a \<Longrightarrow> sep \<notin> set b \<Longrightarrow> Split (a @ sep # b) sep = [a, b]"
  by (induction a) (auto simp: Split_no_sep)

lemma newSleeper_range:
  assumes "CHR ''-'' \<notin> set a" "CHR ''-'' \<notin> set b"
  shows "newSleeper (a @ ''-'' @ b) = Some (RangeSleep (min (Atoi a) (Atoi b)) (max (Atoi a) (Atoi b)))"
proof -
  have "Split (a @ ''-'' @ b) (CHR ''-'') = [a, b]"
    using Split_two [OF assms] by simp
  then show ?thesis
    by (simp add: newSleeper_def Let_def min_def max_def del: Split.simps)
qed

lemma sleep_range:
  assumes "- 9223372036854 \<le> mn" "mn \<le> mx" "mx \<le> 9223372036854"
    and "0 \<le> intn (mx - mn + 1)" "intn (mx - mn + 1) < mx - mn + 1"
  shows "sleep intn (RangeSleep mn mx) = Inr ((mn + intn (mx - mn + 1)) * Millisecond)"
proof -
  have n: "wrap64 (mx - mn) = mx - mn"
    using assms(1-3) by (intro wrap64_id) simp_all
  have n1: "wrap64 (mx - mn + 1) = mx - mn + 1"
    using assms(1-3) by (intro wrap64_id) simp_all
  have d: "wrap64 (intn (mx - mn + 1) + mn) = intn (mx - mn + 1) + mn"
    using assms by (intro wrap64_id) simp_all
  have "wrap64 ((intn (mx - mn + 1) + mn) * 1000000) = (intn (mx - mn + 1) + mn) * 1000000"
    using assms by (intro wrap64_id) simp_all
  with n n1 d assms(2) show ?thesis
    by (simp add: Millisecond_def add.commute)
qed

text \<open>
  Beyond that bound the duration wraps: one millisecond more is a negative
  \<open>time.Duration\<close>.
\<close>

lemma sleep_range_overflow:
  "sleep (\<lambda>n. 0) (RangeSleep 9223372036855 9223372036855) = Inr (- 9223372036854551616)"
  by (simp add: wrap64_def Millisecond_def)

text \<open>
  Claim C7. The specifications \<open>500-100\<close> and \<open>100-500\<close> construct the same strategy,
  \<open>RangeSleep\<close> with min 100 and max 500; in general \<open>newSleeper\<close> of \<open>a-b\<close> is the
  range from the smaller to the larger of the two numbers, so swapping them changes
  nothing. For every range whose bounds, in milliseconds, are durations an int64 of
  nanoseconds can hold (at most 9223372036854 either side of zero), \<open>sleep()\<close> asks
  \<open>rand.Intn\<close> for a number below \<open>max - min + 1\<close> and sleeps \<open>min\<close> plus that number
  of milliseconds, between \<open>min\<close> and \<open>max\<close>; each duration of \<open>min\<close> to \<open>max\<close> ms
  comes from exactly one of the numbers \<open>rand.Intn\<close> can return, so a uniform draw gives
  a uniform duration.
\<close>

theorem RangeSleep_swapped_bounds:
  "newSleeper ''500-100'' = newSleeper ''100-500''
   \<and> newSleeper ''500-100'' = Some (RangeSleep 100 500)
   \<and> (\<forall>a b. CHR ''-'' \<notin> set a \<and> CHR ''-'' \<notin> set b \<longrightarrow>
          newSleeper (a @ ''-'' @ b) = newSleeper (b @ ''-'' @ a)
        \<and> newSleeper (a @ ''-'' @ b)
            = Some (RangeSleep (min (Atoi a) (Atoi b)) (max (Atoi a) (Atoi b))))
   \<and> (\<forall>mn mx intn. - 9223372036854 \<le> mn \<and> mn \<le> mx \<and> mx \<le> 9223372036854
          \<and> 0 \<le> intn (mx - mn + 1) \<and> intn (mx - mn + 1) < mx - mn + 1 \<longrightarrow>
          (\<exists>d. sleep intn (RangeSleep mn mx) = Inr (d * Millisecond)
               \<and> d = mn + intn (mx - mn + 1) \<and> mn \<le> d \<and> d \<le> mx))
   \<and> (\<forall>mn mx d. - 9223372036854 \<le> mn \<and> mn \<le> mx \<and> mx \<le> 9223372036854
          \<and> mn \<le> d \<and> d \<le> mx \<longrightarrow>
          (\<exists>!r. 0 \<le> r \<and> r < mx - mn + 1
                \<and> sleep (\<lambda>n. r) (RangeSleep mn mx) = Inr (d * Millisecond)))"
proof (intro conjI allI impI)
  show "newSleeper ''500-100'' = newSleeper ''100-500''"
    by (simp only: newSleeper_500_100 newSleeper_100_500)
  show "newSleeper ''500-100'' = Some (RangeSleep 100 500)"
    by (rule newSleeper_500_100)
next
  fix a b
  assume "CHR ''-'' \<notin> set a \<and> CHR ''-'' \<notin> set b"
  then show "newSleeper (a @ ''-'' @ b) = newSleeper (b @ ''-'' @ a)"
    using newSleeper_range [of a b] newSleeper_range [of b a]
    by (simp add: min.commute max.commute)
next
  fix a b
  assume "CHR ''-'' \<notin> set a \<and> CHR ''-'' \<notin> set b"
  then show "newSleeper (a @ ''-'' @ b)
             = Some (RangeSleep (min (Atoi a) (Atoi b)) (max (Atoi a) (Atoi b)))"
    using newSleeper_range [of a b] by simp
next
  fix mn mx :: int and intn :: "int \<Rightarrow> int"
  assume r: "- 9223372036854 \<le> mn \<and> mn \<le> mx \<and> mx \<le> 9223372036854
          \<and> 0 \<le> intn (mx - mn + 1) \<and> intn (mx - mn + 1) < mx - mn + 1"
  then have "sleep intn (RangeSleep mn mx) = Inr ((mn + intn (mx - mn + 1)) * Millisecond)"
    by (intro sleep_range) simp_all
  with r show "\<exists>d. sleep intn (RangeSleep mn mx) = Inr (d * Millisecond)
                 \<and> d = mn + intn (mx - mn + 1) \<and> mn \<le> d \<and> d \<le> mx"
    by simp
next
  fix mn mx d :: int
  assume d: "- 9223372036854 \<le> mn \<and> mn \<le> mx \<and> mx \<le> 9223372036854 \<and> mn \<le> d \<and> d \<le> mx"
  show "\<exists>!r. 0 \<le> r \<and> r < mx - mn + 1 \<and> sleep (\<lambda>n. r) (RangeSleep mn mx) = Inr (d * Millisecond)"
  proof (rule ex1I [of _ "d - mn"])
    from d have "sleep (\<lambda>n. d - mn) (RangeSleep mn mx) = Inr ((mn + (d - mn)) * Millisecond)"
      by (intro sleep_range) simp_all
    with d show "0 \<le> d - mn \<and> d - mn < mx - mn + 1
                 \<and> sleep (\<lambda>n. d - mn) (RangeSleep mn mx) = Inr (d * Millisecond)"
      by simp
  next
    fix r
    assume a: "0 \<le> r \<and> r < mx - mn + 1 \<and> sleep (\<lambda>n. r) (RangeSleep mn mx) = Inr (d * Millisecond)"
    with d have "sleep (\<lambda>n. r) (RangeSleep mn mx) = Inr ((mn + r) * Millisecond)"
      by (intro sleep_range) simp_all
    with a show "r = d - mn"
      by (simp add: Millisecond_def)
  qed
qed

text \<open>
  Claim C7 at the range 100 to 500 (the draw 250 gives 350 ms; 500 ms has one draw) and
  at the range 10 to 20 (the largest draw gives 20 ms; 10 ms has one draw).
\<close>

theorem RangeSleep_swapped_bounds_witness:
  "newSleeper ''500-100'' = newSleeper ''100-500''
   \<and> newSleeper ''500-100'' = Some (RangeSleep 100 500)
   \<and> newSleeper (''500'' @ ''-'' @ ''100'') = newSleeper (''100'' @ ''-'' @ ''500'')
   \<and> sleep (\<lambda>n. 250) (RangeSleep 100 500) = Inr (350 * Millisecond)
   \<and> sleep (\<lambda>n. n - 1) (RangeSleep 10 20) = Inr (20 * Millisecond)
   \<and> (\<exists>!r. 0 \<le> r \<and> r < 401
           \<and> sleep (\<lambda>n. r) (RangeSleep 100 500) = Inr (500 * Millisecond))
   \<and> (\<exists>!r. 0 \<le> r \<and> r < 11
           \<and> sleep (\<lambda>n. r) (RangeSleep 10 20) = Inr (10 * Millisecond))"
proof -
  note main = RangeSleep_swapped_bounds
  have dash: "CHR ''-'' \<notin> set ''500'' \<and> CHR ''-'' \<notin> set ''100''"
    by simp
  from main dash have swap: "newSleeper (''500'' @ ''-'' @ ''100'') = newSleeper (''100'' @ ''-'' @ ''500'')"
    by blast
  from main have mk: "newSleeper ''500-100'' = newSleeper ''100-500''"
    "newSleeper ''500-100'' = Some (RangeSleep 100 500)"
    by blast+
  note gen = main [THEN conjunct2, THEN conjunct2, THEN conjunct2, THEN conjunct1, rule_format]
  note uni = main [THEN conjunct2, THEN conjunct2, THEN conjunct2, THEN conjunct2, rule_format]
  have "\<exists>d. sleep (\<lambda>n. 250) (RangeSleep 100 500) = Inr (d * Millisecond)
                 \<and> d = 100 + (\<lambda>n. 250) (500 - 100 + 1 :: int) \<and> 100 \<le> d \<and> d \<le> 500"
    by (rule gen [of 100 500 "\<lambda>n. 250"]) simp
  then have dur: "sleep (\<lambda>n. 250) (RangeSleep 100 500) = Inr (350 * Millisecond)"
    by auto
  have "\<exists>d. sleep (\<lambda>n. n - 1) (RangeSleep 10 20) = Inr (d * Millisecond)
                 \<and> d = 10 + (\<lambda>n. n - 1) (20 - 10 + 1 :: int) \<and> 10 \<le> d \<and> d \<le> 20"
    by (rule gen [of 10 20 "\<lambda>n. n - 1"]) simp
  then have dur2: "sleep (\<lambda>n. n - 1) (RangeSleep 10 20) = Inr (20 * Millisecond)"
    by auto
  have "\<exists>!r. 0 \<le> r \<and> r < 500 - 100 + 1
           \<and> sleep (\<lambda>n. r) (RangeSleep 100 500) = Inr (500 * Millisecond)"
    by (rule uni [of 100 500 500]) simp
  then have u1: "\<exists>!r. 0 \<le> r \<and> r < 401
           \<and> sleep (\<lambda>n. r) (RangeSleep 100 500) = Inr (500 * Millisecond)"
    by simp
  have "\<exists>!r. 0 \<le> r \<and> r < 20 - 10 + 1
           \<and> sleep (\<lambda>n. r) (RangeSleep 10 20) = Inr (10 * Millisecond)"
    by (rule uni [of 10 20 10]) simp
  then have u2: "\<exists>!r. 0 \<le> r \<and> r < 11
           \<and> sleep (\<lambda>n. r) (RangeSleep 10 20) = Inr (10 * Millisecond)"
    by simp
  from swap mk dur dur2 u1 u2 show ?thesis
    by blast
qed

lemma sleep_panics: "sleep f sl = Inl pn \<Longrightarrow> pn = IntnNonPositive \<and> \<not> sleepReturns sl"
  by (cases sl) (auto simp: sleepReturns_def Let_def split: if_splits)

lemma sleep_returns: "sleepReturns sl \<Longrightarrow> \<exists>d. sleep f sl = Inr d"
  by (cases sl) (auto simp: sleepReturns_def Let_def)

subsection \<open>The engine\<close>

lemma sleepBeforeNext_Inr:
  "sleepBeforeNext E n sr w = Inr (w2, slp) \<Longrightarrow>
   (slp = [] \<and> w2 = w)
   \<or> (\<exists>sl d. slp = [EvSleep sl] \<and> sleeper sr = Some sl \<and> 1 < n
          \<and> sleep (rand_Intn E w) sl = Inr d \<and> w2 = time_Sleep E d w)"
  by (auto simp: sleepBeforeNext_def split: option.splits if_splits sum.splits)

lemma sleepBeforeNext_Inl:
  "sleepBeforeNext E n sr w = Inl pn \<Longrightarrow>
   pn = IntnNonPositive \<and> 1 < n \<and> (\<exists>sl. sleeper sr = Some sl \<and> \<not> sleepReturns sl)"
  by (auto simp: sleepBeforeNext_def split: option.splits if_splits sum.splits dest: sleep_panics)

lemma sleepBeforeNext_single: "n \<le> 1 \<Longrightarrow> sleepBeforeNext E n sr w = Inr (w, [])"
  by (simp add: sleepBeforeNext_def split: option.splits)

text \<open>
  The unfolding of one iteration, by the three ways it can go on.
\<close>

lemma doLoop_intended:
  assumes "Requester_Send E (requester sr) w = (res, w1)" "Type (Err res) = ErrorIntented"
  shows "doLoop E n (sr # rest) resp err w
         = Inr (resp, Some (Err res), w1, [EvSend (scenarioItemID sr) res])"
  using assms by (simp add: Let_def)

lemma doLoop_sleep_panic:
  assumes "Requester_Send E (requester sr) w = (res, w1)" "Type (Err res) \<noteq> ErrorIntented"
    "sleepBeforeNext E n sr w1 = Inl pn"
  shows "doLoop E n (sr # rest) resp err w = Inl (pn, w1, [EvSend (scenarioItemID sr) res])"
  using assms by (simp add: Let_def)

lemma doLoop_next:
  assumes "Requester_Send E (requester sr) w = (res, w1)" "Type (Err res) \<noteq> ErrorIntented"
    "sleepBeforeNext E n sr w1 = Inr (w2, slp)"
  shows "doLoop E n (sr # rest) resp err w
         = (case doLoop E n rest (resp\<lparr>StepResults := StepResults resp @ [res]\<rparr>)
                  (if Type (Err res) = ErrorProxy then Some (Err res) else err) w2 of
              Inl (pn, w', tr) \<Rightarrow> Inl (pn, w', EvSend (scenarioItemID sr) res # slp @ tr)
            | Inr (resp', err', w', tr) \<Rightarrow>
                Inr (resp', err', w', EvSend (scenarioItemID sr) res # slp @ tr))"
  using assms by (simp add: Let_def)

lemma doLoop_cases:
  obtains
    (intended) res w1 where
      "Requester_Send E (requester sr) w = (res, w1)" "Type (Err res) = ErrorIntented"
  | (sleep_panic) res w1 pn where
      "Requester_Send E (requester sr) w = (res, w1)" "Type (Err res) \<noteq> ErrorIntented"
      "sleepBeforeNext E n sr w1 = Inl pn"
  | (goes_on) res w1 w2 slp where
      "Requester_Send E (requester sr) w = (res, w1)" "Type (Err res) \<noteq> ErrorIntented"
      "sleepBeforeNext E n sr w1 = Inr (w2, slp)"
proof -
  obtain res w1 where s: "Requester_Send E (requester sr) w = (res, w1)"
    by (cases "Requester_Send E (requester sr) w")
  show ?thesis
  proof (cases "Type (Err res) = ErrorIntented")
    case True
    with s show ?thesis by (rule intended)
  next
    case False
    show ?thesis
    proof (cases "sleepBeforeNext E n sr w1")
      case (Inl pn)
      with s False show ?thesis by (rule sleep_panic)
    next
      case (Inr a)
      then obtain w2 slp where "sleepBeforeNext E n sr w1 = Inr (w2, slp)"
        by (cases a) auto
      with s False show ?thesis by (rule goes_on)
    qed
  qed
qed

lemma sleepBeforeNext_sent:
  "sleepBeforeNext E n sr w = Inr (w2, slp) \<Longrightarrow>
   sent (slp @ tr) = sent tr \<and> sentIDs (slp @ tr) = sentIDs tr"
  by (auto dest: sleepBeforeNext_Inr)

lemma doLoop_head:
  "endTrace (doLoop E n rs resp err w) = []
   \<or> (\<exists>i res tr. endTrace (doLoop E n rs resp err w) = EvSend i res # tr)"
proof (cases rs)
  case Nil
  then show ?thesis by (simp add: endTrace_def)
next
  case (Cons sr rest)
  show ?thesis
    unfolding Cons
    by (cases rule: doLoop_cases [where E = E and sr = sr and w = w and n = n])
       (simp_all add: doLoop_intended doLoop_sleep_panic doLoop_next endTrace_def
          split: sum.splits prod.splits)
qed

lemma replay_step:
  assumes snd: "Requester_Send E (requester sr) w = (res, w1)"
    and slp: "sleepBeforeNext E n sr w1 = Inr (w2, slp)"
    and hd: "tr = [] \<or> (\<exists>i res' tr'. tr = EvSend i res' # tr')"
  shows "replay E (sr # rest) w (EvSend (scenarioItemID sr) res # slp @ tr) = replay E rest w2 tr"
proof -
  from sleepBeforeNext_Inr [OF slp] show ?thesis
  proof (elim disjE conjE exE)
    assume "slp = []" "w2 = w1"
    with snd hd show ?thesis
      by (auto split: list.splits event.splits)
  next
    fix sl d
    assume "slp = [EvSleep sl]" "sleeper sr = Some sl" "sleep (rand_Intn E w1) sl = Inr d"
      "w2 = time_Sleep E d w1"
    with snd show ?thesis
      by simp
  qed
qed

lemma doLoop_replay:
  "replay E rs w (endTrace (doLoop E n rs resp err w)) = Some (endWorld (doLoop E n rs resp err w))"
proof (induction rs arbitrary: resp err w)
  case Nil
  then show ?case by (simp add: endTrace_def endWorld_def)
next
  case (Cons sr rest)
  show ?case
  proof (cases rule: doLoop_cases [where E = E and sr = sr and w = w and n = n])
    case intended
    then show ?thesis
      by (simp add: doLoop_intended endTrace_def endWorld_def del: doLoop.simps)
  next
    case sleep_panic
    then show ?thesis
      by (simp add: doLoop_sleep_panic endTrace_def endWorld_def del: doLoop.simps)
  next
    case (goes_on res w1 w2 slp)
    let ?rec = "doLoop E n rest (resp\<lparr>StepResults := StepResults resp @ [res]\<rparr>)
                  (if Type (Err res) = ErrorProxy then Some (Err res) else err) w2"
    have tr: "endTrace (doLoop E n (sr # rest) resp err w)
              = EvSend (scenarioItemID sr) res # slp @ endTrace ?rec"
      and w: "endWorld (doLoop E n (sr # rest) resp err w) = endWorld ?rec"
      by (simp_all add: doLoop_next [OF goes_on] endTrace_def endWorld_def
          split: sum.splits prod.splits del: doLoop.simps)
    have hd: "endTrace ?rec = [] \<or> (\<exists>i res' tr'. endTrace ?rec = EvSend i res' # tr')"
      by (rule doLoop_head)
    from replay_step [OF goes_on(1,3) hd, of rest] Cons.IH
    show ?thesis
      by (simp only: tr w)
  qed
qed

lemma doLoop_next_Inr:
  assumes "Requester_Send E (requester sr) w = (res, w1)" "Type (Err res) \<noteq> ErrorIntented"
    "sleepBeforeNext E n sr w1 = Inr (w2, slp)"
    and "doLoop E n (sr # rest) resp err w = Inr (resp', err', w', tr)"
  obtains tr1 where
    "doLoop E n rest (resp\<lparr>StepResults := StepResults resp @ [res]\<rparr>)
       (if Type (Err res) = ErrorProxy then Some (Err res) else err) w2 = Inr (resp', err', w', tr1)"
    "tr = EvSend (scenarioItemID sr) res # slp @ tr1"
  using assms(4) unfolding doLoop_next [OF assms(1-3)]
  by (auto split: sum.splits prod.splits)

lemma doLoop_next_Inl:
  assumes "Requester_Send E (requester sr) w = (res, w1)" "Type (Err res) \<noteq> ErrorIntented"
    "sleepBeforeNext E n sr w1 = Inr (w2, slp)"
    and "doLoop E n (sr # rest) resp err w = Inl (pn, w', tr)"
  obtains tr1 where
    "doLoop E n rest (resp\<lparr>StepResults := StepResults resp @ [res]\<rparr>)
       (if Type (Err res) = ErrorProxy then Some (Err res) else err) w2 = Inl (pn, w', tr1)"
    "tr = EvSend (scenarioItemID sr) res # slp @ tr1"
  using assms(4) unfolding doLoop_next [OF assms(1-3)]
  by (auto split: sum.splits prod.splits)

lemma doLoop_frame:
  "doLoop E n rs resp err w = Inr (resp', err', w', tr) \<Longrightarrow>
   StartTime resp' = StartTime resp \<and> ProxyAddr resp' = ProxyAddr resp"
proof (induction rs arbitrary: resp err w tr)
  case Nil
  then show ?case by simp
next
  case (Cons sr rest)
  show ?case
  proof (cases rule: doLoop_cases [where E = E and sr = sr and w = w and n = n])
    case intended
    with Cons.prems show ?thesis
      by (simp add: doLoop_intended del: doLoop.simps)
  next
    case sleep_panic
    with Cons.prems show ?thesis
      by (simp add: doLoop_sleep_panic del: doLoop.simps)
  next
    case (goes_on res w1 w2 slp)
    from doLoop_next_Inr [OF goes_on Cons.prems] obtain tr1 where
      "doLoop E n rest (resp\<lparr>StepResults := StepResults resp @ [res]\<rparr>)
         (if Type (Err res) = ErrorProxy then Some (Err res) else err) w2 = Inr (resp', err', w', tr1)"
      by blast
    from Cons.IH [OF this] show ?thesis
      by simp
  qed
qed

lemma doLoop_ids:
  "sentIDs (endTrace (doLoop E n rs resp err w))
   = take (length (sent (endTrace (doLoop E n rs resp err w)))) (map scenarioItemID rs)"
proof (induction rs arbitrary: resp err w)
  case Nil
  then show ?case by (simp add: endTrace_def)
next
  case (Cons sr rest)
  show ?case
  proof (cases rule: doLoop_cases [where E = E and sr = sr and w = w and n = n])
    case intended
    then show ?thesis
      by (simp add: doLoop_intended endTrace_def del: doLoop.simps)
  next
    case sleep_panic
    then show ?thesis
      by (simp add: doLoop_sleep_panic endTrace_def del: doLoop.simps)
  next
    case (goes_on res w1 w2 slp)
    let ?rec = "doLoop E n rest (resp\<lparr>StepResults := StepResults resp @ [res]\<rparr>)
                  (if Type (Err res) = ErrorProxy then Some (Err res) else err) w2"
    have tr: "endTrace (doLoop E n (sr # rest) resp err w)
              = EvSend (scenarioItemID sr) res # slp @ endTrace ?rec"
      by (simp add: doLoop_next [OF goes_on] endTrace_def
          split: sum.splits prod.splits del: doLoop.simps)
    from Cons.IH [of "resp\<lparr>StepResults := StepResults resp @ [res]\<rparr>"
        "if Type (Err res) = ErrorProxy then Some (Err res) else err" w2]
    show ?thesis
      by (simp add: tr sleepBeforeNext_sent [OF goes_on(3)] del: doLoop.simps)
  qed
qed


lemma doLoop_abort:
  "doLoop E n rs resp err w = Inr (resp', err', w', tr) \<Longrightarrow>
   k < length (sent tr) \<Longrightarrow> Type (Err (sent tr ! k)) = ErrorIntented \<Longrightarrow>
   length (sent tr) = Suc k \<and> StepResults resp' = StepResults resp @ take k (sent tr)
   \<and> err' = Some (Err (sent tr ! k))
   \<and> (\<exists>tr0 x. tr = tr0 @ [EvSend (scenarioItemID (rs ! k)) x] \<and> Type (Err x) = ErrorIntented)"
proof (induction rs arbitrary: resp err w tr k)
  case Nil
  then show ?case by simp
next
  case (Cons sr rest)
  show ?case
  proof (cases rule: doLoop_cases [where E = E and sr = sr and w = w and n = n])
    case intended
    with Cons.prems show ?thesis
      by (auto simp: doLoop_intended simp del: doLoop.simps)
  next
    case sleep_panic
    with Cons.prems show ?thesis
      by (simp add: doLoop_sleep_panic del: doLoop.simps)
  next
    case (goes_on res w1 w2 slp)
    from doLoop_next_Inr [OF goes_on Cons.prems(1)] obtain tr1 where
      run: "doLoop E n rest (resp\<lparr>StepResults := StepResults resp @ [res]\<rparr>)
         (if Type (Err res) = ErrorProxy then Some (Err res) else err) w2 = Inr (resp', err', w', tr1)"
      and tr: "tr = EvSend (scenarioItemID sr) res # slp @ tr1"
      by blast
    have st: "sent tr = res # sent tr1"
      by (simp add: tr sleepBeforeNext_sent [OF goes_on(3)])
    from Cons.prems(2,3) st goes_on(2) obtain j where k: "k = Suc j"
      by (cases k) auto
    with Cons.prems(2,3) st have "j < length (sent tr1)" "Type (Err (sent tr1 ! j)) = ErrorIntented"
      by auto
    from Cons.IH [OF run this] obtain tr0 x where
      a: "length (sent tr1) = Suc j" "StepResults resp' = (StepResults resp @ [res]) @ take j (sent tr1)"
      "err' = Some (Err (sent tr1 ! j))"
      and b: "tr1 = tr0 @ [EvSend (scenarioItemID (rest ! j)) x]" "Type (Err x) = ErrorIntented"
      by auto
    from a have "length (sent tr) = Suc k \<and> StepResults resp' = StepResults resp @ take k (sent tr)
       \<and> err' = Some (Err (sent tr ! k))"
      by (simp add: st k)
    moreover from b have "tr = (EvSend (scenarioItemID sr) res # slp @ tr0)
                 @ [EvSend (scenarioItemID ((sr # rest) ! k)) x]"
      by (simp add: k tr)
    ultimately show ?thesis
      using b(2) by blast
  qed
qed

lemma doLoop_err:
  "doLoop E n rs resp err w = Inr (resp', err', w', tr) \<Longrightarrow>
   err' = (case filter recorded (sent tr) of [] \<Rightarrow> err | x # xs \<Rightarrow> Some (Err (last (x # xs))))"
proof (induction rs arbitrary: resp err w tr)
  case Nil
  then show ?case by simp
next
  case (Cons sr rest)
  show ?case
  proof (cases rule: doLoop_cases [where E = E and sr = sr and w = w and n = n])
    case intended
    with Cons.prems show ?thesis
      by (auto simp: doLoop_intended recorded_def simp del: doLoop.simps)
  next
    case sleep_panic
    with Cons.prems show ?thesis
      by (simp add: doLoop_sleep_panic del: doLoop.simps)
  next
    case (goes_on res w1 w2 slp)
    from doLoop_next_Inr [OF goes_on Cons.prems(1)] obtain tr1 where
      run: "doLoop E n rest (resp\<lparr>StepResults := StepResults resp @ [res]\<rparr>)
         (if Type (Err res) = ErrorProxy then Some (Err res) else err) w2 = Inr (resp', err', w', tr1)"
      and tr: "tr = EvSend (scenarioItemID sr) res # slp @ tr1"
      by blast
    have st: "sent tr = res # sent tr1"
      by (simp add: tr sleepBeforeNext_sent [OF goes_on(3)])
    from Cons.IH [OF run] goes_on(2) show ?thesis
      by (auto simp: st recorded_def split: list.splits)
  qed
qed

lemma doLoop_panic:
  "doLoop E n rs resp err w = Inl (pn, w', tr) \<Longrightarrow>
   pn = IntnNonPositive \<and> 1 < n
   \<and> (\<forall>x \<in> set (sent tr). Type (Err x) \<noteq> ErrorIntented)
   \<and> sent tr \<noteq> [] \<and> length (sent tr) \<le> length rs
   \<and> (\<exists>sl. sleeper (rs ! (length (sent tr) - 1)) = Some sl \<and> \<not> sleepReturns sl)"
proof (induction rs arbitrary: resp err w tr)
  case Nil
  then show ?case by simp
next
  case (Cons sr rest)
  show ?case
  proof (cases rule: doLoop_cases [where E = E and sr = sr and w = w and n = n])
    case intended
    with Cons.prems show ?thesis
      by (simp add: doLoop_intended del: doLoop.simps)
  next
    case sleep_panic
    with Cons.prems sleepBeforeNext_Inl [OF sleep_panic(3)] show ?thesis
      by (auto simp: doLoop_sleep_panic simp del: doLoop.simps)
  next
    case (goes_on res w1 w2 slp)
    from doLoop_next_Inl [OF goes_on Cons.prems(1)] obtain tr1 where
      run: "doLoop E n rest (resp\<lparr>StepResults := StepResults resp @ [res]\<rparr>)
         (if Type (Err res) = ErrorProxy then Some (Err res) else err) w2 = Inl (pn, w', tr1)"
      and tr: "tr = EvSend (scenarioItemID sr) res # slp @ tr1"
      by blast
    have st: "sent tr = res # sent tr1"
      by (simp add: tr sleepBeforeNext_sent [OF goes_on(3)])
    from Cons.IH [OF run] goes_on(2) show ?thesis
      by (cases "sent tr1") (auto simp: st)
  qed
qed


lemma doLoop_single_no_sleep:
  "n \<le> 1 \<Longrightarrow> EvSleep sl \<notin> set (endTrace (doLoop E n rs resp err w))"
proof (induction rs arbitrary: resp err w)
  case Nil
  then show ?case by (simp add: endTrace_def)
next
  case (Cons sr rest)
  show ?case
  proof (cases rule: doLoop_cases [where E = E and sr = sr and w = w and n = n])
    case intended
    then show ?thesis
      by (simp add: doLoop_intended endTrace_def del: doLoop.simps)
  next
    case sleep_panic
    then show ?thesis
      by (simp add: doLoop_sleep_panic endTrace_def del: doLoop.simps)
  next
    case (goes_on res w1 w2 slp)
    let ?rec = "doLoop E n rest (resp\<lparr>StepResults := StepResults resp @ [res]\<rparr>)
                  (if Type (Err res) = ErrorProxy then Some (Err res) else err) w2"
    have tr: "endTrace (doLoop E n (sr # rest) resp err w)
              = EvSend (scenarioItemID sr) res # slp @ endTrace ?rec"
      by (simp add: doLoop_next [OF goes_on] endTrace_def
          split: sum.splits prod.splits del: doLoop.simps)
    from goes_on(3) Cons.prems have "slp = []"
      by (simp add: sleepBeforeNext_single)
    with Cons.IH [OF Cons.prems, of "resp\<lparr>StepResults := StepResults resp @ [res]\<rparr>"
        "if Type (Err res) = ErrorProxy then Some (Err res) else err" w2]
    show ?thesis
      by (simp add: tr del: doLoop.simps)
  qed
qed

lemma createLoop_ok:
  "createLoop E p dbg sis m w = (None, m', w') \<Longrightarrow> m p = Some old \<Longrightarrow>
   \<exists>new. m' p = Some (old @ new)
        \<and> map scenarioItemID new = map ID sis
        \<and> map sleeper new = map (\<lambda>si. newSleeper (Sleep si)) sis"
proof (induction sis arbitrary: m w old)
  case Nil
  then show ?case by simp
next
  case (Cons si sis)
  obtain r w1 where nr: "NewRequester E si w = (Inr r, w1)"
    using Cons.prems(1) by (auto split: prod.splits sum.splits)
  define ent :: "'a scenarioItemRequester" where
    "ent = \<lparr>scenarioItemID = ID si, sleeper = newSleeper (Sleep si), requester = r\<rparr>"
  define m1 where "m1 = m(p \<mapsto> old @ [ent])"
  obtain w2 where ini: "Requester_Init E r si p dbg w1 = (None, w2)"
    and run: "createLoop E p dbg sis m1 w2 = (None, m', w')"
    using Cons.prems nr
    by (auto simp: Let_def m1_def ent_def split: prod.splits option.splits)
  have "m1 p = Some (old @ [ent])"
    by (simp add: m1_def)
  from Cons.IH [OF run this] obtain new where
    "m' p = Some ((old @ [ent]) @ new)" "map scenarioItemID new = map ID sis"
    "map sleeper new = map (\<lambda>si. newSleeper (Sleep si)) sis"
    by blast
  then have "m' p = Some (old @ (ent # new)) \<and> map scenarioItemID (ent # new) = map ID (si # sis)
     \<and> map sleeper (ent # new) = map (\<lambda>si. newSleeper (Sleep si)) (si # sis)"
    by (simp add: ent_def)
  then show ?case by blast
qed

lemma createRequesters_ok:
  "createRequesters E s p w = Inr (None, s1, w1) \<Longrightarrow>
   \<exists>rs. lookupClients s1 p = Some rs \<and> scenario s1 = scenario s
      \<and> map scenarioItemID rs = map ID (Steps (scenario s))"
  unfolding createRequesters_def lookupClients_def
  by (auto split: option.splits prod.splits dest!: createLoop_ok [where old = "[]"])

lemma getOrCreateRequesters_scenario:
  "getOrCreateRequesters E s p w = Inr (res, s1, w1) \<Longrightarrow> scenario s1 = scenario s"
  unfolding getOrCreateRequesters_def createRequesters_def
  by (auto split: option.splits prod.splits sum.splits)

lemma newSleeper_huge:
  "newSleeper ''0-9223372036854775807'' = Some (RangeSleep 0 9223372036854775807)"
  by (simp add: newSleeper_def Atoi_def isDigit_def clamp64_def)

lemma sleep_huge: "sleep f (RangeSleep 0 9223372036854775807) = Inl IntnNonPositive"
  by (simp add: wrap64_def)

lemma sleepReturns_huge: "\<not> sleepReturns (RangeSleep 0 9223372036854775807)"
  by (simp add: sleepReturns_def wrap64_def)




lemma builtFor_sleepers:
  "list_all2 (builtFor E) sis rs \<Longrightarrow> map sleeper rs = map (\<lambda>si. newSleeper (Sleep si)) sis"
  by (induction rule: list_all2_induct) (simp_all add: builtFor_def)

lemma Do_runs:
  assumes "getOrCreateRequesters E s p w = Inr ((rs, None), s1, w1)"
  shows "Do E s p t w =
    (case doLoop E (length (Steps (scenario s1))) rs
            \<lparr>StartTime = t, ProxyAddr = p, StepResults = []\<rparr> None w1 of
       Inl (pn, w', tr) \<Rightarrow> Inl (pn, w', tr)
     | Inr (resp, err, w', tr) \<Rightarrow> Inr ((Some resp, err), s1, w', tr))"
  using assms by (simp add: Do_def)

lemma Do_outcomes:
  assumes pool: "getOrCreateRequesters E s p w = Inr ((rs, None), s1, w1)"
  obtains (panics) w' tr where
      "doLoop E (length (Steps (scenario s1))) rs
         \<lparr>StartTime = t, ProxyAddr = p, StepResults = []\<rparr> None w1 = Inl (IntnNonPositive, w', tr)"
      "Do E s p t w = Inl (IntnNonPositive, w', tr)"
      "replay E rs w1 tr = Some w'"
  | (returns) resp err w' tr where
      "doLoop E (length (Steps (scenario s1))) rs
         \<lparr>StartTime = t, ProxyAddr = p, StepResults = []\<rparr> None w1 = Inr (resp, err, w', tr)"
      "Do E s p t w = Inr ((Some resp, err), s1, w', tr)"
      "replay E rs w1 tr = Some w'"
proof -
  let ?run = "doLoop E (length (Steps (scenario s1))) rs
                \<lparr>StartTime = t, ProxyAddr = p, StepResults = []\<rparr> None w1"
  have rp: "replay E rs w1 (endTrace ?run) = Some (endWorld ?run)"
    by (rule doLoop_replay)
  show ?thesis
  proof (cases ?run)
    case (Inl a)
    then obtain pn w' tr where l: "?run = Inl (pn, w', tr)"
      by (cases a) auto
    from doLoop_panic [OF l] have "pn = IntnNonPositive"
      by blast
    with l rp show ?thesis
      by (intro panics [of w' tr]) (simp_all add: Do_runs [OF pool] endTrace_def endWorld_def)
  next
    case (Inr b)
    then obtain resp err w' tr where r: "?run = Inr (resp, err, w', tr)"
      by (cases b) auto
    with rp show ?thesis
      by (intro returns [of resp err w' tr]) (simp_all add: Do_runs [OF pool] endTrace_def endWorld_def)
  qed
qed

text \<open>
  Claim C1, as amended. Whenever the pool lookup succeeds, a run of \<open>Do\<close> ends in one of
  two ways, and in both the trace is exactly what the pool's requesters answer, called
  in pool order, and the world is the one these calls leave (\<open>replay\<close>). Either a
  sleeper panics in \<open>rand.Intn\<close> after a Send that did not report \<open>ErrorIntented\<close> (the
  scenario has several steps and the range of that sleeper has no positive width as an
  int), or \<open>Do\<close> returns a ScenarioResult. In that case, if the Send at position \<open>k\<close>
  (counted from 0, so step \<open>k + 1\<close>) reports \<open>ErrorIntented\<close>, then exactly \<open>k + 1\<close>
  Sends were made and the failing Send is the last event of the run (no later step
  executes, nothing sleeps after it), the returned ScenarioResult holds exactly the \<open>k\<close>
  StepResults of the steps before the failing one (the failing step's own StepResult is
  not appended), and the returned error is the failing step's.
\<close>

theorem Do_intended_truncates:
  assumes "getOrCreateRequesters E s p w = Inr ((rs, None), s1, w1)"
  shows "(\<exists>w' tr.
            Do E s p t w = Inl (IntnNonPositive, w', tr)
          \<and> replay E rs w1 tr = Some w'
          \<and> (\<forall>x \<in> set (sent tr). Type (Err x) \<noteq> ErrorIntented)
          \<and> sent tr \<noteq> [] \<and> 1 < length (Steps (scenario s1))
          \<and> (\<exists>sl. sleeper (rs ! (length (sent tr) - 1)) = Some sl \<and> \<not> sleepReturns sl))
       \<or> (\<exists>resp err w' tr.
            Do E s p t w = Inr ((Some resp, err), s1, w', tr)
          \<and> replay E rs w1 tr = Some w'
          \<and> sentIDs tr = take (length (sent tr)) (map scenarioItemID rs)
          \<and> (\<forall>k < length (sent tr). Type (Err (sent tr ! k)) = ErrorIntented \<longrightarrow>
                 length (sent tr) = Suc k
               \<and> StepResults resp = take k (sent tr)
               \<and> length (StepResults resp) = k
               \<and> err = Some (Err (sent tr ! k))
               \<and> (\<exists>tr0. tr = tr0 @ [EvSend (scenarioItemID (rs ! k)) (sent tr ! k)])))"
  using assms
proof (cases rule: Do_outcomes [where t = t])
  case (panics w' tr)
  from doLoop_panic [OF panics(1)] panics(2,3) show ?thesis
    by blast
next
  case (returns resp err w' tr)
  have ids: "sentIDs tr = take (length (sent tr)) (map scenarioItemID rs)"
    using doLoop_ids [of E "length (Steps (scenario s1))" rs
        "\<lparr>StartTime = t, ProxyAddr = p, StepResults = []\<rparr>" None w1]
    by (simp add: returns(1) endTrace_def)
  have cut: "length (sent tr) = Suc k \<and> StepResults resp = take k (sent tr)
        \<and> length (StepResults resp) = k \<and> err = Some (Err (sent tr ! k))
        \<and> (\<exists>tr0. tr = tr0 @ [EvSend (scenarioItemID (rs ! k)) (sent tr ! k)])"
    if k: "k < length (sent tr)" "Type (Err (sent tr ! k)) = ErrorIntented" for k
  proof -
    from doLoop_abort [OF returns(1) k] obtain tr0 x where
      a: "length (sent tr) = Suc k" "StepResults resp = take k (sent tr)"
      "err = Some (Err (sent tr ! k))"
      and b: "tr = tr0 @ [EvSend (scenarioItemID (rs ! k)) x]"
      by auto
    have "sent (tr0 @ [EvSend i x]) = sent tr0 @ [x]" for i
      by (induction tr0 rule: sent.induct) simp_all
    with a(1) b have "sent tr ! k = x"
      by (metis length_append_singleton nth_append_length old.nat.inject)
    with a b k(1) show ?thesis
      by simp
  qed
  from returns(2,3) ids cut show ?thesis
    by blast
qed



text \<open>
  Claim C5. If \<open>getOrCreateRequesters\<close> returns an error, \<open>Do\<close> returns no
  ScenarioResult (nil) and a RequestError of type \<open>ErrorUnkown\<close> carrying the error's
  text; the trace is empty: no Send and no sleep was called.
\<close>

theorem Do_pool_failure:
  assumes "getOrCreateRequesters E s p w = Inr ((rs, Some e), s1, w1)"
  shows "Do E s p t w = Inr ((None, Some \<lparr>Type = ErrorUnkown, Reason = e\<rparr>), s1, w1, [])"
  using assms by (simp add: Do_def)

text \<open>
  Claim C6. Whenever the pool lookup succeeds, a run of \<open>Do\<close> either panics in a sleeper
  (after at least one Send, in a scenario of several steps, at a sleeper whose range has
  no positive width as an int) and returns nothing, or it returns; the trace is exactly
  what the pool's requesters answer. When it returns, the ScenarioResult carries the
  given start time and proxy, and the returned error is the error of the last Send whose
  kind was \<open>ErrorProxy\<close> or \<open>ErrorIntented\<close>, nil if there was none: results of other
  kinds after a recorded error leave it in place.
\<close>

theorem Do_stamp_and_last_error:
  assumes "getOrCreateRequesters E s p w = Inr ((rs, None), s1, w1)"
  shows "(\<exists>w' tr.
            Do E s p t w = Inl (IntnNonPositive, w', tr)
          \<and> replay E rs w1 tr = Some w'
          \<and> sent tr \<noteq> [] \<and> 1 < length (Steps (scenario s1))
          \<and> (\<exists>sl. sleeper (rs ! (length (sent tr) - 1)) = Some sl \<and> \<not> sleepReturns sl))
       \<or> (\<exists>resp err w' tr.
            Do E s p t w = Inr ((Some resp, err), s1, w', tr)
          \<and> replay E rs w1 tr = Some w'
          \<and> StartTime resp = t \<and> ProxyAddr resp = p
          \<and> err = (case filter recorded (sent tr) of
                     [] \<Rightarrow> None
                   | x # xs \<Rightarrow> Some (Err (last (x # xs)))))"
  using assms
proof (cases rule: Do_outcomes [where t = t])
  case (panics w' tr)
  from doLoop_panic [OF panics(1)] panics(2,3) show ?thesis
    by blast
next
  case (returns resp err w' tr)
  from doLoop_frame [OF returns(1)] doLoop_err [OF returns(1)] returns(2,3) show ?thesis
    by simp
qed

lemma steps3_sleepers:
  "newSleeper ''100'' = Some (DurationSleep 100)"
  "newSleeper [] = None"
  "newSleeper ''10-20'' = Some (RangeSleep 10 20)"
  by (simp_all add: newSleeper_def Atoi_def isDigit_def clamp64_def)

lemma sleeps3:
  "sleep f (DurationSleep 100) = Inr 100000000"
  "\<exists>d. sleep f (RangeSleep 10 20) = Inr d"
  by (simp_all add: wrap64_def Millisecond_def Let_def)

lemma build3:
  "createRequesters (stubPkg kind neverFails) service3 p w
   = Inr (None, service3\<lparr>clients := Some [p \<mapsto> pool3]\<rparr>, w)"
  by (simp add: createRequesters_def service3_def scenario3_def stubPkg_def neverFails_def
      pool3_def steps3_sleepers)

lemma lookup3: "lookupClients service3 p = None"
  by (simp add: lookupClients_def service3_def)

lemma getOrCreate3:
  "getOrCreateRequesters (stubPkg kind neverFails) service3 p w
   = Inr ((pool3, None), service3\<lparr>clients := Some [p \<mapsto> pool3]\<rparr>, w)"
proof -
  have "lookupClients service3 p = None"
    by (rule lookup3)
  then show ?thesis
    by (simp add: getOrCreateRequesters_def build3 lookupClients_def)
qed

lemma buildHuge:
  "createRequesters (stubPkg kind neverFails) serviceHuge p w
   = Inr (None, serviceHuge\<lparr>clients := Some [p \<mapsto> poolHuge]\<rparr>, w)"
  by (simp add: createRequesters_def serviceHuge_def scenarioHuge_def stubPkg_def neverFails_def
      poolHuge_def steps3_sleepers newSleeper_huge)

lemma lookupHuge: "lookupClients serviceHuge p = None"
  by (simp add: lookupClients_def serviceHuge_def)

lemma getOrCreateHuge:
  "getOrCreateRequesters (stubPkg kind neverFails) serviceHuge p w
   = Inr ((poolHuge, None), serviceHuge\<lparr>clients := Some [p \<mapsto> poolHuge]\<rparr>, w)"
proof -
  have "lookupClients serviceHuge p = None"
    by (rule lookupHuge)
  then show ?thesis
    by (simp add: getOrCreateRequesters_def buildHuge lookupClients_def)
qed

lemma stub_ops:
  "Requester_Send (stubPkg kind f) r w = (stubResult kind r, Suc w)"
  "rand_Intn (stubPkg kind f) w = (\<lambda>n. 0)"
  "time_Sleep (stubPkg kind f) d w = w"
  by (simp_all add: stubPkg_def)

lemma run_intendedAt2:
  "Do (stubPkg intendedAt2 neverFails) service3 7 1000 0 =
     Inr ((Some \<lparr>StartTime = 1000, ProxyAddr = 7, StepResults = [stubResult intendedAt2 1]\<rparr>,
           Some \<lparr>Type = ErrorIntented, Reason = []\<rparr>),
          service3\<lparr>clients := Some [7 \<mapsto> pool3]\<rparr>, 2,
          [EvSend 1 (stubResult intendedAt2 1), EvSleep (DurationSleep 100),
           EvSend 2 (stubResult intendedAt2 2)])"
  by (simp add: Do_def getOrCreate3)
     (simp add: pool3_def service3_def scenario3_def stub_ops sleepBeforeNext_def sleeps3
        stubResult_def intendedAt2_def del: sleep.simps)

lemma run_huge:
  "kind 1 \<noteq> ErrorIntented \<Longrightarrow>
   Do (stubPkg kind neverFails) serviceHuge 7 1000 0
   = Inl (IntnNonPositive, 1, [EvSend 1 (stubResult kind 1)])"
  by (simp add: Do_def getOrCreateHuge)
     (simp add: poolHuge_def serviceHuge_def scenarioHuge_def stub_ops sleepBeforeNext_def
        sleep_huge stubResult_def del: sleep.simps)

text \<open>
  Claim C1 as stated fails: in a three-step scenario whose second step reports
  \<open>ErrorIntented\<close>, two Sends are made and the returned ScenarioResult holds one
  StepResult, not two.
\<close>

theorem Do_intended_keeps_failing_step_counterexample:
  "Do (stubPkg intendedAt2 neverFails) service3 7 1000 0 =
     Inr ((Some \<lparr>StartTime = 1000, ProxyAddr = 7, StepResults = [stubResult intendedAt2 1]\<rparr>,
           Some \<lparr>Type = ErrorIntented, Reason = []\<rparr>),
          service3\<lparr>clients := Some [7 \<mapsto> pool3]\<rparr>, 2,
          [EvSend 1 (stubResult intendedAt2 1), EvSleep (DurationSleep 100),
           EvSend 2 (stubResult intendedAt2 2)])
   \<and> Type (Err (stubResult intendedAt2 2)) = ErrorIntented
   \<and> length [stubResult intendedAt2 1] \<noteq> 2"
  using run_intendedAt2 by (simp add: stubResult_def intendedAt2_def)

text \<open>
  The amended claim C1 at the same run: step 2 of 3 reports \<open>ErrorIntented\<close>, the world
  has seen two Sends. And at a run of the other kind: the sleeper of step 1 panics, the
  world has seen one Send.
\<close>

theorem Do_intended_truncates_witness:
  "Do (stubPkg intendedAt2 neverFails) service3 7 1000 0 =
     Inr ((Some \<lparr>StartTime = 1000, ProxyAddr = 7, StepResults = [stubResult intendedAt2 1]\<rparr>,
           Some \<lparr>Type = ErrorIntented, Reason = []\<rparr>),
          service3\<lparr>clients := Some [7 \<mapsto> pool3]\<rparr>, 2,
          [EvSend 1 (stubResult intendedAt2 1), EvSleep (DurationSleep 100),
           EvSend 2 (stubResult intendedAt2 2)])
   \<and> replay (stubPkg intendedAt2 neverFails) pool3 0
         [EvSend 1 (stubResult intendedAt2 1), EvSleep (DurationSleep 100),
          EvSend 2 (stubResult intendedAt2 2)] = Some 2
   \<and> Type (Err (stubResult intendedAt2 2)) = ErrorIntented
   \<and> Do (stubPkg intendedAt2 neverFails) serviceHuge 7 1000 0
       = Inl (IntnNonPositive, 1, [EvSend 1 (stubResult intendedAt2 1)])
   \<and> replay (stubPkg intendedAt2 neverFails) poolHuge 0 [EvSend 1 (stubResult intendedAt2 1)] = Some 1"
proof -
  have k: "intendedAt2 1 \<noteq> ErrorIntented"
    by (simp add: intendedAt2_def)
  have i: "Type (Err (stubResult intendedAt2 2)) = ErrorIntented"
    by (simp add: stubResult_def intendedAt2_def)
  from Do_intended_truncates [of "stubPkg intendedAt2 neverFails" service3 7 0 pool3
      "service3\<lparr>clients := Some [7 \<mapsto> pool3]\<rparr>" 0 1000, OF getOrCreate3]
  have "replay (stubPkg intendedAt2 neverFails) pool3 0
         [EvSend 1 (stubResult intendedAt2 1), EvSleep (DurationSleep 100),
          EvSend 2 (stubResult intendedAt2 2)] = Some 2"
    unfolding run_intendedAt2 by auto
  moreover from Do_intended_truncates [of "stubPkg intendedAt2 neverFails" serviceHuge 7 0 poolHuge
      "serviceHuge\<lparr>clients := Some [7 \<mapsto> poolHuge]\<rparr>" 0 1000, OF getOrCreateHuge]
  have "replay (stubPkg intendedAt2 neverFails) poolHuge 0 [EvSend 1 (stubResult intendedAt2 1)] = Some 1"
    unfolding run_huge [of intendedAt2, OF k] by auto
  ultimately show ?thesis
    using run_intendedAt2 run_huge [of intendedAt2, OF k] i by simp
qed

lemma run_proxyAt1:
  "Do (stubPkg proxyAt1 neverFails) service3 7 1000 0 =
     Inr ((Some \<lparr>StartTime = 1000, ProxyAddr = 7,
                 StepResults = [stubResult proxyAt1 1, stubResult proxyAt1 2, stubResult proxyAt1 3]\<rparr>,
           Some \<lparr>Type = ErrorProxy, Reason = []\<rparr>),
          service3\<lparr>clients := Some [7 \<mapsto> pool3]\<rparr>, 3,
          [EvSend 1 (stubResult proxyAt1 1), EvSleep (DurationSleep 100),
           EvSend 2 (stubResult proxyAt1 2),
           EvSend 3 (stubResult proxyAt1 3), EvSleep (RangeSleep 10 20)])"
  by (simp add: Do_def getOrCreate3)
     (use sleeps3(2) [of "\<lambda>n. 0"] in \<open>auto simp add: pool3_def service3_def scenario3_def stub_ops
        sleepBeforeNext_def sleeps3(1) stubResult_def proxyAt1_def simp del: sleep.simps\<close>)






text \<open>
  Claim C6 at a run whose first step reports \<open>ErrorProxy\<close> and whose later steps
  succeed: the proxy error is returned. And at a run that panics in the sleeper of its
  first step.
\<close>

theorem Do_stamp_and_last_error_witness:
  "Do (stubPkg proxyAt1 neverFails) service3 7 1000 0 =
       Inr ((Some \<lparr>StartTime = 1000, ProxyAddr = 7,
                   StepResults = [stubResult proxyAt1 1, stubResult proxyAt1 2, stubResult proxyAt1 3]\<rparr>,
             Some \<lparr>Type = ErrorProxy, Reason = []\<rparr>),
            service3\<lparr>clients := Some [7 \<mapsto> pool3]\<rparr>, 3,
            [EvSend 1 (stubResult proxyAt1 1), EvSleep (DurationSleep 100),
             EvSend 2 (stubResult proxyAt1 2),
             EvSend 3 (stubResult proxyAt1 3), EvSleep (RangeSleep 10 20)])
   \<and> replay (stubPkg proxyAt1 neverFails) pool3 0
        [EvSend 1 (stubResult proxyAt1 1), EvSleep (DurationSleep 100),
         EvSend 2 (stubResult proxyAt1 2),
         EvSend 3 (stubResult proxyAt1 3), EvSleep (RangeSleep 10 20)] = Some 3
   \<and> filter recorded [stubResult proxyAt1 1, stubResult proxyAt1 2, stubResult proxyAt1 3]
        = [stubResult proxyAt1 1]
   \<and> Err (stubResult proxyAt1 1) = \<lparr>Type = ErrorProxy, Reason = []\<rparr>
   \<and> Do (stubPkg proxyAt1 neverFails) serviceHuge 7 1000 0
       = Inl (IntnNonPositive, 1, [EvSend 1 (stubResult proxyAt1 1)])
   \<and> replay (stubPkg proxyAt1 neverFails) poolHuge 0 [EvSend 1 (stubResult proxyAt1 1)] = Some 1
   \<and> sleeper (poolHuge ! 0) = Some (RangeSleep 0 9223372036854775807)
   \<and> \<not> sleepReturns (RangeSleep 0 9223372036854775807)"
proof -
  let ?E = "stubPkg proxyAt1 neverFails"
  have k: "proxyAt1 1 \<noteq> ErrorIntented"
    by (simp add: proxyAt1_def)
  have f: "filter recorded [stubResult proxyAt1 1, stubResult proxyAt1 2, stubResult proxyAt1 3]
        = [stubResult proxyAt1 1]"
    by (simp add: recorded_def stubResult_def proxyAt1_def)
  have e: "Err (stubResult proxyAt1 1) = \<lparr>Type = ErrorProxy, Reason = []\<rparr>"
    by (simp add: stubResult_def proxyAt1_def)
  have h: "sleeper (poolHuge ! 0) = Some (RangeSleep 0 9223372036854775807)"
    by (simp add: poolHuge_def)
  from Do_stamp_and_last_error [of ?E service3 7 0 pool3 "service3\<lparr>clients := Some [7 \<mapsto> pool3]\<rparr>" 0 1000,
      OF getOrCreate3]
  have one: "replay ?E pool3 0
        [EvSend 1 (stubResult proxyAt1 1), EvSleep (DurationSleep 100),
         EvSend 2 (stubResult proxyAt1 2),
         EvSend 3 (stubResult proxyAt1 3), EvSleep (RangeSleep 10 20)] = Some 3"
    unfolding run_proxyAt1 by auto
  from Do_stamp_and_last_error [of ?E serviceHuge 7 0 poolHuge
      "serviceHuge\<lparr>clients := Some [7 \<mapsto> poolHuge]\<rparr>" 0 1000, OF getOrCreateHuge]
  have two: "replay ?E poolHuge 0 [EvSend 1 (stubResult proxyAt1 1)] = Some 1"
    unfolding run_huge [of proxyAt1, OF k] by auto
  from one two f e h run_proxyAt1 run_huge [of proxyAt1, OF k] sleepReturns_huge show ?thesis
    by simp
qed

lemma getOrCreate_fails:
  "getOrCreateRequesters (stubPkg kind failsAt2On9) service3 9 w
   = Inr (([], Some ''init failed''), service3\<lparr>clients := Some [9 \<mapsto> partialPool]\<rparr>, w)"
  by (simp add: getOrCreateRequesters_def lookup3 createRequesters_def)
     (simp add: service3_def scenario3_def stubPkg_def failsAt2On9_def partialPool_def steps3_sleepers)

text \<open>
  Claim C5 at a pool whose build fails in \<open>Init\<close> of step 2.
\<close>

theorem Do_pool_failure_witness:
  "Do (stubPkg noErrors failsAt2On9) service3 9 1000 0
   = Inr ((None, Some \<lparr>Type = ErrorUnkown, Reason = ''init failed''\<rparr>),
          service3\<lparr>clients := Some [9 \<mapsto> partialPool]\<rparr>, 0, [])"
  using Do_pool_failure [OF getOrCreate_fails [of noErrors 0], of 1000] by simp

text \<open>
  Claim C4 at a failing input: \<open>Init\<close> of the requester of step 2 fails for proxy 9.
  The first call returns the error; it leaves the two requesters built so far in
  \<open>clients\<close>. The second call for the same proxy returns these two requesters and no
  error, and \<open>Do\<close> then runs two of the three steps and returns no error.
\<close>

theorem getOrCreateRequesters_caches_partial_pool:
  "getOrCreateRequesters (stubPkg noErrors failsAt2On9) service3 9 0
     = Inr (([], Some ''init failed''), service3\<lparr>clients := Some [9 \<mapsto> partialPool]\<rparr>, 0)
   \<and> getOrCreateRequesters (stubPkg noErrors failsAt2On9)
        (service3\<lparr>clients := Some [9 \<mapsto> partialPool]\<rparr>) 9 0
     = Inr ((partialPool, None), service3\<lparr>clients := Some [9 \<mapsto> partialPool]\<rparr>, 0)
   \<and> length partialPool = 2 \<and> length (Steps (scenario service3)) = 3
   \<and> Do (stubPkg noErrors failsAt2On9) (service3\<lparr>clients := Some [9 \<mapsto> partialPool]\<rparr>) 9 1000 0
     = Inr ((Some \<lparr>StartTime = 1000, ProxyAddr = 9,
                  StepResults = [stubResult noErrors 1, stubResult noErrors 2]\<rparr>, None),
            service3\<lparr>clients := Some [9 \<mapsto> partialPool]\<rparr>, 2,
            [EvSend 1 (stubResult noErrors 1), EvSleep (DurationSleep 100),
             EvSend 2 (stubResult noErrors 2)])"
proof -
  have second: "getOrCreateRequesters (stubPkg noErrors failsAt2On9)
        (service3\<lparr>clients := Some [9 \<mapsto> partialPool]\<rparr>) 9 0
     = Inr ((partialPool, None), service3\<lparr>clients := Some [9 \<mapsto> partialPool]\<rparr>, 0)"
    by (simp add: getOrCreateRequesters_def lookupClients_def)
  have "Do (stubPkg noErrors failsAt2On9) (service3\<lparr>clients := Some [9 \<mapsto> partialPool]\<rparr>) 9 1000 0
     = Inr ((Some \<lparr>StartTime = 1000, ProxyAddr = 9,
                  StepResults = [stubResult noErrors 1, stubResult noErrors 2]\<rparr>, None),
            service3\<lparr>clients := Some [9 \<mapsto> partialPool]\<rparr>, 2,
            [EvSend 1 (stubResult noErrors 1), EvSleep (DurationSleep 100),
             EvSend 2 (stubResult noErrors 2)])"
    by (simp add: Do_def second)
       (simp add: partialPool_def service3_def scenario3_def stub_ops sleepBeforeNext_def sleeps3
          stubResult_def noErrors_def del: sleep.simps)
  with second getOrCreate_fails [of noErrors 0] show ?thesis
    by (simp add: partialPool_def service3_def scenario3_def)
qed

text \<open>
  Claim C3 at a failing input: a three-step scenario whose last step has the sleep
  specification \<open>10-20\<close>. The last event of the run is the call of that step's sleeper,
  after the last Send.
\<close>

theorem Do_sleeps_after_last_step:
  "Do (stubPkg noErrors neverFails) service3 7 1000 0 =
     Inr ((Some \<lparr>StartTime = 1000, ProxyAddr = 7,
                 StepResults = [stubResult noErrors 1, stubResult noErrors 2, stubResult noErrors 3]\<rparr>,
           None),
          service3\<lparr>clients := Some [7 \<mapsto> pool3]\<rparr>, 3,
          [EvSend 1 (stubResult noErrors 1), EvSleep (DurationSleep 100),
           EvSend 2 (stubResult noErrors 2),
           EvSend 3 (stubResult noErrors 3), EvSleep (RangeSleep 10 20)])
   \<and> length (Steps (scenario service3)) = 3"
  by (simp add: Do_def getOrCreate3)
     (use sleeps3(2) [of "\<lambda>n. 0"] in \<open>auto simp add: pool3_def service3_def scenario3_def stub_ops
        sleepBeforeNext_def sleeps3(1) stubResult_def noErrors_def simp del: sleep.simps\<close>)

lemma Do_before_Init: "clients s = None \<Longrightarrow> Do E s p t w = Inl (AssignToNilMap, w, [])"
  by (simp add: Do_def getOrCreateRequesters_def lookupClients_def createRequesters_def)

lemma Init_service3: "Init E NewScenarioService scenario3 [] False w = Inr (None, service3, w)"
  by (simp add: Init_def NewScenarioService_def service3_def)

lemma Do_single_step_no_sleep:
  assumes "length (Steps (scenario s)) \<le> 1"
  shows "EvSleep sl \<notin> set (endTrace (Do E s p t w))"
    and "Do E s p t w \<noteq> Inl (IntnNonPositive, w', tr)"
proof -
  let ?resp = "\<lparr>StartTime = t, ProxyAddr = p, StepResults = []\<rparr>"
  have "EvSleep sl \<notin> set (endTrace (Do E s p t w)) \<and> Do E s p t w \<noteq> Inl (IntnNonPositive, w', tr)"
  proof (cases "getOrCreateRequesters E s p w")
    case (Inl pn)
    then have "pn = AssignToNilMap"
      by (auto simp: getOrCreateRequesters_def createRequesters_def
          split: option.splits sum.splits prod.splits)
    with Inl show ?thesis
      by (simp add: Do_def endTrace_def)
  next
    case (Inr x)
    then obtain rs e s1 w1 where g: "getOrCreateRequesters E s p w = Inr ((rs, e), s1, w1)"
      by (cases x) auto
    then have sc: "scenario s1 = scenario s"
      by (rule getOrCreateRequesters_scenario)
    show ?thesis
    proof (cases e)
      case (Some msg)
      with g show ?thesis
        by (simp add: Do_def endTrace_def)
    next
      case None
      let ?run = "doLoop E (length (Steps (scenario s1))) rs ?resp None w1"
      have run: "Do E s p t w =
          (case ?run of Inl (pn, w', tr) \<Rightarrow> Inl (pn, w', tr)
           | Inr (resp, err, w', tr) \<Rightarrow> Inr ((Some resp, err), s1, w', tr))"
        by (rule Do_runs [OF g [unfolded None]])
      have tr: "endTrace (Do E s p t w) = endTrace ?run"
        unfolding run by (simp add: endTrace_def split: sum.splits prod.splits)
      have "EvSleep sl \<notin> set (endTrace ?run)"
        using assms sc by (intro doLoop_single_no_sleep) simp
      moreover have "?run \<noteq> Inl (IntnNonPositive, w', tr)"
        using doLoop_panic [of E "length (Steps (scenario s1))" rs ?resp None w1 IntnNonPositive w' tr]
          assms sc by auto
      then have "Do E s p t w \<noteq> Inl (IntnNonPositive, w', tr)"
        unfolding run by (auto split: sum.splits prod.splits)
      ultimately show ?thesis
        using tr by simp
    qed
  qed
  then show "EvSleep sl \<notin> set (endTrace (Do E s p t w))"
    and "Do E s p t w \<noteq> Inl (IntnNonPositive, w', tr)"
    by simp_all
qed

lemma getOrCreateRequesters_cached:
  "lookupClients s p = Some rs \<Longrightarrow> getOrCreateRequesters E s p w = Inr ((rs, None), s, w)"
  by (simp add: getOrCreateRequesters_def)

lemma getOrCreateRequesters_build_error:
  "lookupClients s p = None \<Longrightarrow> createRequesters E s p w = Inr (Some e, s1, w1) \<Longrightarrow>
   getOrCreateRequesters E s p w = Inr (([], Some e), s1, w1)"
  by (simp add: getOrCreateRequesters_def)

subsection \<open>The final report\<close>

lemma keyToStr_names: "map (\<lambda>e. fst (snd e)) keyToStr = presentationOrder"
  by (simp add: keyToStr_def presentationOrder_def)

lemma keyToStr_keys_distinct: "distinct (map fst keyToStr)"
  by (simp add: keyToStr_def)

lemma keyToStr_orders: "map (\<lambda>e. snd (snd e)) keyToStr = [1, 2, 3, 4, 5, 6, 7]"
  by (simp add: keyToStr_def)

lemma keyToStr_names_nonempty: "e \<in> set keyToStr \<Longrightarrow> fst (snd e) \<noteq> []"
  by (auto simp: keyToStr_def)

lemma headerIDs_append: "headerIDs (xs @ ys) = headerIDs xs @ headerIDs ys"
  by (induction xs rule: headerIDs.induct) simp_all

lemma durationNames_append: "durationNames (xs @ ys) = durationNames xs @ durationNames ys"
  by (induction xs rule: durationNames.induct) simp_all

lemma headerIDs_no_header: "\<forall>l \<in> set ls. \<forall>k h. l \<noteq> StepHeader k h \<Longrightarrow> headerIDs ls = []"
  by (induction ls rule: headerIDs.induct) auto

lemma durationNames_none: "\<forall>l \<in> set ls. \<forall>n d. l \<noteq> DurationLine n d \<Longrightarrow> durationNames ls = []"
  by (induction ls rule: durationNames.induct) auto

lemma durationNames_lines: "durationNames (map (\<lambda>d. DurationLine (name d) (duration d)) ds) = map name ds"
  by (induction ds) simp_all

lemma headerIDs_section: "headerIDs (printSection P n k v) = (if n > 1 then [k] else [])"
  by (auto simp: printSection_def headerIDs_append intro!: headerIDs_no_header split: prod.splits)

lemma durationNames_section:
  "durationNames (printSection P n k v) = map name (sortSlice (map durationOf (Durations v)))"
  apply (simp add: printSection_def durationNames_append durationNames_lines)
  apply (auto  intro!: durationNames_none split: prod.splits)
  done

lemma durationOf_name_iff: "name (durationOf kv) \<noteq> [] \<longleftrightarrow> fst kv \<in> fst ` set keyToStr"
proof (cases "map_of keyToStr (fst kv)")
  case None
  then have "fst kv \<notin> fst ` set keyToStr"
    by (simp add: map_of_eq_None_iff)
  moreover from None have "name (durationOf kv) = []"
    by (simp add: durationOf_def)
  ultimately show ?thesis
    by simp
next
  case (Some e)
  then have "(fst kv, e) \<in> set keyToStr"
    by (rule map_of_SomeD)
  with Some show ?thesis
    using keyToStr_names_nonempty [of "(fst kv, e)"]
    by (force simp: durationOf_def split: prod.splits)
qed

lemma keyToStr_nameOfOrder: "e \<in> set keyToStr \<Longrightarrow> nameOfOrder (snd (snd e)) = fst (snd e)"
  by (auto simp: keyToStr_def nameOfOrder_def presentationOrder_def)

lemma durationOf_entry:
  assumes "fst kv \<in> fst ` set keyToStr"
  shows "\<exists>e \<in> set keyToStr. fst e = fst kv \<and> name (durationOf kv) = fst (snd e)
           \<and> order (durationOf kv) = snd (snd e)"
proof -
  from assms obtain e where "map_of keyToStr (fst kv) = Some e"
    by (metis map_of_eq_None_iff not_Some_eq)
  moreover from this have "(fst kv, e) \<in> set keyToStr"
    by (rule map_of_SomeD)
  ultimately show ?thesis
    by (force simp: durationOf_def split: prod.splits)
qed

lemma keyToStr_order_inj: "inj_on (\<lambda>e. snd (snd e)) (set keyToStr)"
proof -
  have "distinct (map (\<lambda>e. snd (snd e)) keyToStr)"
    by (simp add: keyToStr_orders)
  then show ?thesis
    by (simp add: distinct_map)
qed

lemma keyToStr_key_inj: "inj_on fst (set keyToStr)"
  using keyToStr_keys_distinct by (simp add: distinct_map)

lemma phases_any_sort:
  assumes dist: "distinct (map fst durs)"
    and perm: "mset ys = mset (map durationOf durs)"
    and srt: "sorted (map order ys)"
  shows "filter (\<lambda>n. n \<noteq> []) (map name ys)
         = map (\<lambda>e. fst (snd e)) (filter (\<lambda>e. fst e \<in> fst ` set durs) keyToStr)"
proof -
  define known where "known = filter (\<lambda>kv. fst kv \<in> fst ` set keyToStr) durs"
  define A where "A = filter (\<lambda>d. name d \<noteq> []) ys"
  define B where "B = filter (\<lambda>e. fst e \<in> fst ` set durs) keyToStr"
  have known_set: "set known = {kv \<in> set durs. fst kv \<in> fst ` set keyToStr}"
    by (simp add: known_def)
  have "filter (\<lambda>d. name d \<noteq> []) (map durationOf durs) = map durationOf known"
    by (simp add: known_def filter_map comp_def durationOf_name_iff)
  then have "mset (map durationOf known) = filter_mset (\<lambda>d. name d \<noteq> []) (mset (map durationOf durs))"
    by (metis mset_filter)
  with perm have msetA: "mset A = mset (map durationOf known)"
    by (simp add: A_def)
  then have setA: "set A = durationOf ` set known"
    by (metis mset_eq_setD set_map)
  have lhs: "filter (\<lambda>n. n \<noteq> []) (map name ys) = map name A"
    by (simp add: A_def filter_map comp_def)
  have entry: "\<exists>e \<in> set B. fst e = fst kv \<and> name (durationOf kv) = fst (snd e)
                 \<and> order (durationOf kv) = snd (snd e)" if "kv \<in> set known" for kv
  proof -
    from that have "kv \<in> set durs" "fst kv \<in> fst ` set keyToStr"
      by (simp_all add: known_set)
    with durationOf_entry [of kv] show ?thesis
      by (force simp: B_def)
  qed
  have inj_durs: "inj_on fst (set durs)" and dist_durs: "distinct durs"
    using dist by (simp_all add: distinct_map)
  have sA: "sorted (map order A)"
    unfolding A_def using srt by (rule sorted_filter)
  have sB: "sorted (map (\<lambda>e. snd (snd e)) B)"
    unfolding B_def by (rule sorted_filter) (simp add: keyToStr_orders)
  have dB: "distinct (map (\<lambda>e. snd (snd e)) B)"
    unfolding B_def by (rule distinct_map_filter) (simp add: keyToStr_orders)
  have "inj_on (\<lambda>kv. order (durationOf kv)) (set known)"
  proof (rule inj_onI)
    fix kv kv'
    assume kv: "kv \<in> set known" and kv': "kv' \<in> set known"
      and eq: "order (durationOf kv) = order (durationOf kv')"
    from entry [OF kv] obtain e where e: "e \<in> set B" "fst e = fst kv"
      "order (durationOf kv) = snd (snd e)" by blast
    from entry [OF kv'] obtain e' where e': "e' \<in> set B" "fst e' = fst kv'"
      "order (durationOf kv') = snd (snd e')" by blast
    from e(1) e'(1) have "e \<in> set keyToStr" "e' \<in> set keyToStr"
      by (simp_all add: B_def)
    with eq e(3) e'(3) have "e = e'"
      using keyToStr_order_inj by (simp add: inj_on_def)
    with e(2) e'(2) have "fst kv = fst kv'"
      by simp
    with kv kv' inj_durs show "kv = kv'"
      by (simp add: known_set inj_on_def)
  qed
  moreover have "distinct known"
    using dist_durs by (simp add: known_def)
  ultimately have "distinct (map (\<lambda>kv. order (durationOf kv)) known)"
    by (simp add: distinct_map)
  moreover have "mset (map order A) = mset (map (\<lambda>kv. order (durationOf kv)) known)"
    using msetA by (metis (no_types, lifting) map_map mset_map comp_def map_eq_conv)
  ultimately have dA: "distinct (map order A)"
    using mset_eq_imp_distinct_iff by blast
  have "set (map order A) = set (map (\<lambda>e. snd (snd e)) B)"
  proof (intro equalityI subsetI)
    fix x
    assume "x \<in> set (map order A)"
    then obtain kv where "kv \<in> set known" "x = order (durationOf kv)"
      by (auto simp: setA)
    with entry [of kv] show "x \<in> set (map (\<lambda>e. snd (snd e)) B)"
      by force
  next
    fix x
    assume "x \<in> set (map (\<lambda>e. snd (snd e)) B)"
    then obtain e where e: "e \<in> set keyToStr" "fst e \<in> fst ` set durs" "x = snd (snd e)"
      by (auto simp: B_def)
    then obtain kv where kv: "kv \<in> set durs" "fst kv = fst e"
      by force
    with e(1) have k: "kv \<in> set known"
      by (force simp: known_set)
    from entry [OF k] obtain e' where e': "e' \<in> set B" "fst e' = fst kv"
      "order (durationOf kv) = snd (snd e')" by blast
    from e'(1) have "e' \<in> set keyToStr"
      by (simp add: B_def)
    with e(1) e'(2) kv(2) have "e' = e"
      using keyToStr_key_inj by (simp add: inj_on_def)
    with e'(3) e(3) k show "x \<in> set (map order A)"
      by (force simp: setA)
  qed
  with sA sB dA dB have orders: "map order A = map (\<lambda>e. snd (snd e)) B"
    by (rule_tac sorted_distinct_set_unique)
  have "map name A = map nameOfOrder (map order A)"
  proof -
    have "name d = nameOfOrder (order d)" if "d \<in> set A" for d
    proof -
      from that obtain kv where kv: "kv \<in> set known" "d = durationOf kv"
        by (auto simp: setA)
      from entry [OF kv(1)] obtain e where "e \<in> set B" "name d = fst (snd e)" "order d = snd (snd e)"
        using kv(2) by blast
      then show ?thesis
        using keyToStr_nameOfOrder [of e] by (simp add: B_def)
    qed
    then show ?thesis
      by simp
  qed
  also have "\<dots> = map nameOfOrder (map (\<lambda>e. snd (snd e)) B)"
    by (simp only: orders)
  also have "\<dots> = map (\<lambda>e. fst (snd e)) B"
    using keyToStr_nameOfOrder by (simp add: B_def)
  finally show ?thesis
    by (simp add: lhs B_def)
qed

lemma phases_in_presentation_order:
  assumes "distinct (map fst durs)"
  shows "filter (\<lambda>n. n \<noteq> []) (map name (sortSlice (map durationOf durs)))
         = map (\<lambda>e. fst (snd e)) (filter (\<lambda>e. fst e \<in> fst ` set durs) keyToStr)"
  using assms by (rule phases_any_sort) (simp_all add: sortSlice_def)

lemma printSections_entries:
  assumes "distinct (map fst m)" and "set kvs \<subseteq> set m"
  shows "printSections P m n (map stepKey kvs)
         = Inr (concat (map (\<lambda>kv. printSection P n (stepKey kv) (snd kv)) kvs))"
  using assms(2)
proof (induction kvs)
  case Nil
  then show ?case by simp
next
  case (Cons kv kvs)
  then have "(fst kv, snd kv) \<in> set m"
    by simp
  with assms(1) have "map_of m (fst kv) = Some (snd kv)"
    by (rule_tac map_of_is_SomeI)
  with Cons show ?case
    by (simp add: stepKey_def)
qed

lemma sorted_keys:
  assumes "distinct (map fst m)"
  shows "sort (map stepKey m) = map stepKey (sort_key stepKey m)"
    and "sort (map stepKey m) = sorted_list_of_set (stepKey ` set m)"
proof -
  have "map stepKey m = map uint (map fst m)"
    by (simp add: stepKey_def)
  moreover have "distinct (map uint (map fst m))"
    using assms by (subst distinct_map) (auto simp: inj_on_def dest: word_uint_eq_iff [THEN iffD2])
  ultimately have d: "distinct (map stepKey m)"
    by (simp only:)
  have "mset (map stepKey (sort_key stepKey m)) = mset (map stepKey m)"
    by simp
  then have d': "distinct (map stepKey (sort_key stepKey m))"
    using d mset_eq_imp_distinct_iff by blast
  have "set (sort (map stepKey m)) = set (map stepKey (sort_key stepKey m))"
    by simp
  then show "sort (map stepKey m) = map stepKey (sort_key stepKey m)"
    using d d' by (intro sorted_distinct_set_unique) simp_all
  from d show "sort (map stepKey m) = sorted_list_of_set (stepKey ` set m)"
    by (metis distinct_remdups_id list.set_map sorted_list_of_set_sort_remdups)
qed

lemma sort_key_perm_invariant:
  assumes perm: "mset xs' = mset xs" and dist: "distinct (map f xs)"
  shows "sort_key f xs' = sort_key f xs"
proof (rule properties_for_sort_key)
  show "mset (sort_key f xs) = mset xs'"
    using perm by simp
  show "sorted (map f (sort_key f xs))"
    by simp
  have inj: "inj_on f (set xs)" and dx: "distinct xs"
    using dist by (simp_all add: distinct_map)
  have dx': "distinct xs'"
    using perm dx mset_eq_imp_distinct_iff by blast
  have sx': "set xs' = set xs"
    using perm by (rule mset_eq_setD)
  have single: "filter (\<lambda>x. f k = f x) ys = [k]"
    if "k \<in> set ys" "distinct ys" "set ys = set xs" for k ys
  proof -
    have "filter (\<lambda>x. f k = f x) ys = filter (\<lambda>x. x = k) ys"
      using that inj by (intro filter_cong refl) (auto simp: inj_on_def)
    also have "\<dots> = [k]"
      using that(1,2) by (induction ys) (auto simp: filter_empty_conv)
    finally show ?thesis .
  qed
  show "\<And>k. k \<in> set (sort_key f xs) \<Longrightarrow>
          filter (\<lambda>x. f k = f x) (sort_key f xs) = filter (\<lambda>x. f k = f x) xs'"
    using single [of _ "sort_key f xs"] single [of _ xs'] dx dx' sx' by simp
qed

lemma known_orders_distinct:
  assumes dist: "distinct (map fst durs)" and known: "fst ` set durs \<subseteq> fst ` set keyToStr"
  shows "distinct (map order (map durationOf durs))"
proof -
  have "inj_on (\<lambda>kv. order (durationOf kv)) (set durs)"
  proof (rule inj_onI)
    fix kv kv'
    assume kv: "kv \<in> set durs" and kv': "kv' \<in> set durs"
      and eq: "order (durationOf kv) = order (durationOf kv')"
    from kv known durationOf_entry [of kv] obtain e where e: "e \<in> set keyToStr" "fst e = fst kv"
      "order (durationOf kv) = snd (snd e)" by blast
    from kv' known durationOf_entry [of kv'] obtain e' where e': "e' \<in> set keyToStr" "fst e' = fst kv'"
      "order (durationOf kv') = snd (snd e')" by blast
    from eq e e' have "e = e'"
      using keyToStr_order_inj by (simp add: inj_on_def)
    with e(2) e'(2) have "fst kv = fst kv'"
      by simp
    with kv kv' dist show "kv = kv'"
      by (simp add: distinct_map inj_on_def)
  qed
  moreover have "distinct durs"
    using dist by (simp add: distinct_map)
  ultimately show ?thesis
    by (simp add: distinct_map comp_def)
qed

lemma stepKey_distinct:
  assumes "distinct (map fst m)"
  shows "distinct (map stepKey m)"
proof -
  have "map stepKey m = map uint (map fst m)"
    by (simp add: stepKey_def)
  moreover have "distinct (map uint (map fst m))"
    using assms by (subst distinct_map) (auto simp: inj_on_def dest: word_uint_eq_iff [THEN iffD2])
  ultimately show ?thesis
    by (simp only:)
qed

lemma printDetails_sections:
  assumes "distinct (map fst (ResultStepResults r))"
  shows "printDetails P r
         = Inr (preamble @ concat (map (\<lambda>kv. printSection P (length (ResultStepResults r)) (stepKey kv) (snd kv))
                                      (sort_key stepKey (ResultStepResults r))))"
proof -
  let ?m = "ResultStepResults r"
  have keys: "sort (map (\<lambda>kv. uint (fst kv)) ?m) = map stepKey (sort_key stepKey ?m)"
    using sorted_keys(1) [OF assms] by (simp add: stepKey_def [abs_def])
  have "set (sort_key stepKey ?m) \<subseteq> set ?m"
    by simp
  from printSections_entries [OF assms this]
  show ?thesis
    by (simp add: printDetails_def keys preamble_def Let_def)
qed

lemma headerIDs_sections:
  "1 < n \<Longrightarrow> headerIDs (concat (map (\<lambda>kv. printSection P n (stepKey kv) (snd kv)) kvs)) = map stepKey kvs"
  by (induction kvs) (simp_all add: headerIDs_append headerIDs_section)

lemma durationNames_known:
  assumes "fst ` set (Durations v) \<subseteq> fst ` set keyToStr"
  shows "filter (\<lambda>nm. nm \<noteq> []) (durationNames (printSection P n k v))
         = durationNames (printSection P n k v)"
proof -
  have "name d \<noteq> []" if "d \<in> set (sortSlice (map durationOf (Durations v)))" for d
  proof -
    from that obtain kv where "kv \<in> set (Durations v)" "d = durationOf kv"
      by (auto simp: sortSlice_def)
    with assms show ?thesis
      using durationOf_name_iff [of kv] by auto
  qed
  then show ?thesis
    by (simp add: durationNames_section)
qed

text \<open>
  Claim C8. \<open>printDetails\<close> returns (no nil dereference), and its report is the preamble
  and one section per step, the steps in ascending step ID: the order is that of the
  sorted set of keys, it is the order of the header lines when there are several steps,
  and the report is the same for every iteration order of the map of steps. Within a
  section the named duration lines follow the order of \<open>keyToStr\<close>, which is DNS,
  Connection, TLS, Request Write, Server Processing, Response Read, Total; when all keys
  of the duration map are phases of \<open>keyToStr\<close> these are all its duration lines, and
  the sorted list is the same for every iteration order of the duration map.
\<close>

theorem printDetails_order:
  assumes "distinct (map fst (ResultStepResults r))"
  shows "\<exists>secs.
      printDetails P r = Inr (preamble @ concat secs)
    \<and> secs = map (\<lambda>kv. printSection P (length (ResultStepResults r)) (stepKey kv) (snd kv))
                 (sort_key stepKey (ResultStepResults r))
    \<and> map stepKey (sort_key stepKey (ResultStepResults r))
        = sorted_list_of_set (stepKey ` set (ResultStepResults r))
    \<and> (1 < length (ResultStepResults r) \<longrightarrow>
          headerIDs (concat secs) = sorted_list_of_set (stepKey ` set (ResultStepResults r)))
    \<and> (\<forall>r'. mset (ResultStepResults r') = mset (ResultStepResults r) \<longrightarrow>
          printDetails P r' = printDetails P r)
    \<and> (\<forall>n k v. distinct (map fst (Durations v)) \<longrightarrow>
          filter (\<lambda>nm. nm \<noteq> []) (durationNames (printSection P n k v)) = presentPhases (Durations v)
        \<and> (fst ` set (Durations v) \<subseteq> fst ` set keyToStr \<longrightarrow>
              durationNames (printSection P n k v) = presentPhases (Durations v)
            \<and> (\<forall>durs'. mset durs' = mset (Durations v) \<longrightarrow>
                  sortSlice (map durationOf durs') = sortSlice (map durationOf (Durations v)))))
    \<and> map (\<lambda>e. fst (snd e)) keyToStr
        = [''DNS'', ''Connection'', ''TLS'', ''Request Write'', ''Server Processing'',
           ''Response Read'', ''Total'']"
proof -
  let ?m = "ResultStepResults r"
  let ?secs = "map (\<lambda>kv. printSection P (length ?m) (stepKey kv) (snd kv)) (sort_key stepKey ?m)"
  have out: "printDetails P r = Inr (preamble @ concat ?secs)"
    by (rule printDetails_sections [OF assms])
  have keys: "map stepKey (sort_key stepKey ?m) = sorted_list_of_set (stepKey ` set ?m)"
    using sorted_keys [OF assms] by simp
  have hdr: "headerIDs (concat ?secs) = sorted_list_of_set (stepKey ` set ?m)" if "1 < length ?m"
    using headerIDs_sections [OF that, of P "sort_key stepKey ?m"] keys by simp
  have perm: "printDetails P r' = printDetails P r"
    if p: "mset (ResultStepResults r') = mset ?m" for r'
  proof -
    have "mset (map fst (ResultStepResults r')) = mset (map fst ?m)"
      using p by (metis mset_map)
    then have d': "distinct (map fst (ResultStepResults r'))"
      using assms mset_eq_imp_distinct_iff by blast
    have "sort_key stepKey (ResultStepResults r') = sort_key stepKey ?m"
      using p stepKey_distinct [OF assms] by (rule sort_key_perm_invariant)
    moreover have "length (ResultStepResults r') = length ?m"
      using p by (rule mset_eq_length)
    ultimately show ?thesis
      by (simp add: printDetails_sections [OF d'] out)
  qed
  have f1: "filter (\<lambda>nm. nm \<noteq> []) (durationNames (printSection P n k v)) = presentPhases (Durations v)"
    if d: "distinct (map fst (Durations v))" for n k v
    using phases_in_presentation_order [OF d]
    by (simp add: durationNames_section presentPhases_def)
  have f2: "durationNames (printSection P n k v) = presentPhases (Durations v)"
    if d: "distinct (map fst (Durations v))"
      and known: "fst ` set (Durations v) \<subseteq> fst ` set keyToStr" for n k v
    using f1 [OF d, of n k] durationNames_known [OF known, of P n k] by simp
  have f3: "sortSlice (map durationOf durs') = sortSlice (map durationOf (Durations v))"
    if d: "distinct (map fst (Durations v))"
      and known: "fst ` set (Durations v) \<subseteq> fst ` set keyToStr"
      and p: "mset durs' = mset (Durations v)"
    for v :: "'a ScenarioStepResultSummary" and durs' :: "(string \<times> 'a) list"
  proof -
    from p have "mset (map durationOf durs') = mset (map durationOf (Durations v))"
      by (metis mset_map)
    then show ?thesis
      unfolding sortSlice_def using known_orders_distinct [OF d known]
      by (rule sort_key_perm_invariant)
  qed
  have names: "map (\<lambda>e. fst (snd e)) keyToStr
        = [''DNS'', ''Connection'', ''TLS'', ''Request Write'', ''Server Processing'',
           ''Response Read'', ''Total'']"
    using keyToStr_names by (simp add: presentationOrder_def)
  show ?thesis
    by (intro exI [of _ ?secs] conjI allI impI)
       (rule out keys hdr perm f1 f2 f3 names refl | assumption)+
qed

lemma section1:
  "printSection stubReport n 1 summary1 =
     (if n > 1 then [StepHeader 1 (CHR 0x0A # ''%d. Step 1'' @ [CHR 0x0A]), Text ''---------------------------------''] else [])
     @ [SuccessCountLine 3 100, FailedCountLine 0 0, Text (CHR 0x0A # ''Durations (Avg):''),
        DurationLine ''DNS'' 10, DurationLine ''Connection'' 20, DurationLine ''Total'' 50,
        Text (CHR 0x0A # ''Status Code (Message) :Count''), StatusCodeLine 200 ''OK'' 3, Text []]"
  by (simp add: printSection_def summary1_def stubReport_def sortSlice_def durationOf_def keyToStr_def
      stepHeader_def Itoa_def natDigits.simps)

lemma report1:
  "printDetails stubReport result1 = Inr (preamble @ printSection stubReport 1 1 summary1)"
  by (simp add: printDetails_def result1_def preamble_def)

text \<open>
  Claim C8 at a result of two steps, visited as step 2 then step 1, whose step 1 holds
  the phases Total, DNS, Connection in this order.
\<close>

theorem printDetails_order_witness:
  "\<exists>secs.
      printDetails stubReport result21 = Inr (preamble @ concat secs)
    \<and> headerIDs (concat secs) = [1, 2]
    \<and> printDetails stubReport result12 = printDetails stubReport result21
    \<and> durationNames (printSection stubReport 2 1 summary1) = [''DNS'', ''Connection'', ''Total'']
    \<and> sortSlice (map durationOf [(''connDuration'', 20), (''duration'', 50), (''dnsDuration'', 10 :: int)])
        = sortSlice (map durationOf (Durations summary1))"
proof -
  have d: "distinct (map fst (ResultStepResults result21))"
    by (simp add: result21_def)
  from printDetails_order [OF d, of stubReport] obtain secs where
    out: "printDetails stubReport result21 = Inr (preamble @ concat secs)"
    and hdr: "1 < length (ResultStepResults result21) \<longrightarrow>
          headerIDs (concat secs) = sorted_list_of_set (stepKey ` set (ResultStepResults result21))"
    and perm: "\<forall>r'. mset (ResultStepResults r') = mset (ResultStepResults result21) \<longrightarrow>
          printDetails stubReport r' = printDetails stubReport result21"
    and phases: "\<forall>n k v. distinct (map fst (Durations v)) \<longrightarrow>
          filter (\<lambda>nm. nm \<noteq> []) (durationNames (printSection stubReport n k v)) = presentPhases (Durations v)
        \<and> (fst ` set (Durations v) \<subseteq> fst ` set keyToStr \<longrightarrow>
              durationNames (printSection stubReport n k v) = presentPhases (Durations v)
            \<and> (\<forall>durs'. mset durs' = mset (Durations v) \<longrightarrow>
                  sortSlice (map durationOf durs') = sortSlice (map durationOf (Durations v))))"
    by blast
  have "1 < length (ResultStepResults result21)"
    by (simp add: result21_def)
  with hdr have "headerIDs (concat secs) = sorted_list_of_set (stepKey ` set (ResultStepResults result21))"
    by blast
  also have "\<dots> = [1, 2]"
    using sorted_keys(2) [OF d] by (simp add: result21_def stepKey_def)
  finally have h: "headerIDs (concat secs) = [1, 2]" .
  have "mset (ResultStepResults result12) = mset (ResultStepResults result21)"
    by (simp add: result12_def result21_def)
  with perm have p: "printDetails stubReport result12 = printDetails stubReport result21"
    by blast
  have dd: "distinct (map fst (Durations summary1))"
    and known: "fst ` set (Durations summary1) \<subseteq> fst ` set keyToStr"
    by (simp_all add: summary1_def keyToStr_def)
  from phases dd known have
    n: "durationNames (printSection stubReport 2 1 summary1) = presentPhases (Durations summary1)"
    and s: "\<forall>durs'. mset durs' = mset (Durations summary1) \<longrightarrow>
              sortSlice (map durationOf durs') = sortSlice (map durationOf (Durations summary1))"
    by blast+
  have "presentPhases (Durations summary1) = [''DNS'', ''Connection'', ''Total'']"
    by (simp add: presentPhases_def summary1_def keyToStr_def)
  with n have n': "durationNames (printSection stubReport 2 1 summary1) = [''DNS'', ''Connection'', ''Total'']"
    by simp
  have "mset [(''connDuration'', 20), (''duration'', 50), (''dnsDuration'', 10 :: int)]
        = mset (Durations summary1)"
    by (simp add: summary1_def)
  with s have s': "sortSlice (map durationOf [(''connDuration'', 20), (''duration'', 50), (''dnsDuration'', 10 :: int)])
        = sortSlice (map durationOf (Durations summary1))"
    by blast
  from out h p n' s' show ?thesis
    by blast
qed

lemma printSection_header:
  "printSection P n k v = (if 1 < n then headerLines k v else []) @ printSection P 1 k v"
  by (simp add: printSection_def headerLines_def)

lemma one_step_one_key:
  assumes "distinct (map fst m)" "length steps = 1" "fst ` set m \<subseteq> ID ` set steps"
  shows "length m \<le> 1"
proof -
  from assms(2) obtain s where "steps = [s]"
    by (cases steps) auto
  with assms(3) have "set (map fst m) \<subseteq> {ID s}"
    by auto
  then have "card (set (map fst m)) \<le> card {ID s}"
    by (intro card_mono) simp_all
  moreover from assms(1) have "card (set (map fst m)) = length (map fst m)"
    by (rule distinct_card)
  ultimately show ?thesis
    by simp
qed

text \<open>
  Claim C9, as amended. The header is governed by the number of steps in the aggregated
  result (\<open>len(keys)\<close>): with one step the report is the preamble and that step's section
  without header lines, with several steps every section begins with its header lines.
  A scenario of one step aggregates to at most one step, hence prints no header.
\<close>

theorem printDetails_step_header:
  assumes "distinct (map fst (ResultStepResults r))"
  shows "\<exists>secs.
      printDetails P r = Inr (preamble @ concat secs)
    \<and> (\<forall>k v. ResultStepResults r = [(k, v)] \<longrightarrow>
          secs = [printSection P 1 (uint k) v] \<and> headerIDs (printSection P 1 (uint k) v) = [])
    \<and> (length (ResultStepResults r) \<le> 1 \<longrightarrow> headerIDs (concat secs) = [])
    \<and> (1 < length (ResultStepResults r) \<longrightarrow>
          secs = map (\<lambda>kv. headerLines (stepKey kv) (snd kv) @ printSection P 1 (stepKey kv) (snd kv))
                     (sort_key stepKey (ResultStepResults r))
        \<and> headerIDs (concat secs) = map stepKey (sort_key stepKey (ResultStepResults r)))
    \<and> (\<forall>sc :: Scenario. length (Steps sc) = 1 \<and> fst ` set (ResultStepResults r) \<subseteq> ID ` set (Steps sc) \<longrightarrow>
          headerIDs (concat secs) = [])"
proof -
  let ?m = "ResultStepResults r"
  let ?secs = "map (\<lambda>kv. printSection P (length ?m) (stepKey kv) (snd kv)) (sort_key stepKey ?m)"
  have out: "printDetails P r = Inr (preamble @ concat ?secs)"
    by (rule printDetails_sections [OF assms])
  have single: "?secs = [printSection P 1 (uint k) v] \<and> headerIDs (printSection P 1 (uint k) v) = []"
    if "?m = [(k, v)]" for k v
    using that by (simp add: stepKey_def headerIDs_section)
  have none: "headerIDs (concat ?secs) = []" if "length ?m \<le> 1"
  proof -
    have "headerIDs (concat (map (\<lambda>kv. printSection P n (stepKey kv) (snd kv)) kvs)) = []"
      if "n \<le> 1" for n and kvs :: "(uint16 \<times> 'a ScenarioStepResultSummary) list"
      using that by (induction kvs) (simp_all add: headerIDs_append headerIDs_section)
    with that show ?thesis
      by blast
  qed
  have many: "?secs = map (\<lambda>kv. headerLines (stepKey kv) (snd kv) @ printSection P 1 (stepKey kv) (snd kv))
                     (sort_key stepKey ?m)
        \<and> headerIDs (concat ?secs) = map stepKey (sort_key stepKey ?m)"
    if "1 < length ?m"
    using that headerIDs_sections [OF that, of P "sort_key stepKey ?m"]
    by (simp add: printSection_header [of P "length ?m"])
  have scen: "headerIDs (concat ?secs) = []"
    if "length (Steps sc) = 1 \<and> fst ` set ?m \<subseteq> ID ` set (Steps sc)" for sc :: Scenario
    using that one_step_one_key [OF assms, of "Steps sc"] none by blast
  show ?thesis
    by (intro exI [of _ ?secs] conjI allI impI)
       (rule out single [THEN conjunct1] single [THEN conjunct2] none
             many [THEN conjunct1] many [THEN conjunct2] scen | assumption)+
qed

text \<open>
  Claim C9 as stated fails: for a scenario of three steps of which only step 1 has
  aggregated results, the report holds the section of step 1 and no header line.
\<close>

theorem printDetails_step_header_counterexample:
  "length (Steps scenario3) = 3
   \<and> fst ` set (ResultStepResults result1) \<subseteq> ID ` set (Steps scenario3)
   \<and> printDetails stubReport result1 =
       Inr [Text (CHR 0x0A # CHR 0x0A # ''RESULT''), Text ''-------------------------------------'',
            SuccessCountLine 3 100, FailedCountLine 0 0, Text (CHR 0x0A # ''Durations (Avg):''),
            DurationLine ''DNS'' 10, DurationLine ''Connection'' 20, DurationLine ''Total'' 50,
            Text (CHR 0x0A # ''Status Code (Message) :Count''), StatusCodeLine 200 ''OK'' 3, Text []]"
  by (simp add: report1 section1 preamble_def) (simp add: scenario3_def result1_def)

text \<open>
  The amended claim C9 at a result of two steps and at a result of one step.
\<close>

theorem printDetails_step_header_witness:
  "\<exists>secs.
      printDetails stubReport result21 = Inr (preamble @ concat secs)
    \<and> secs = [headerLines 1 summary1 @ printSection stubReport 1 1 summary1,
               headerLines 2 summary2 @ printSection stubReport 1 2 summary2]
    \<and> headerIDs (concat secs) = [1, 2]
    \<and> printDetails stubReport result1 = Inr (preamble @ printSection stubReport 1 1 summary1)
    \<and> headerIDs (printSection stubReport 1 1 summary1) = []"
proof -
  have d: "distinct (map fst (ResultStepResults result21))"
    by (simp add: result21_def)
  have s: "sort_key stepKey (ResultStepResults result21) = [(1, summary1), (2, summary2)]"
    by (simp add: result21_def stepKey_def)
  from printDetails_step_header [OF d, of stubReport] obtain secs where
    out: "printDetails stubReport result21 = Inr (preamble @ concat secs)"
    and many: "1 < length (ResultStepResults result21) \<longrightarrow>
          secs = map (\<lambda>kv. headerLines (stepKey kv) (snd kv) @ printSection stubReport 1 (stepKey kv) (snd kv))
                     (sort_key stepKey (ResultStepResults result21))
        \<and> headerIDs (concat secs) = map stepKey (sort_key stepKey (ResultStepResults result21))"
    by blast
  have "1 < length (ResultStepResults result21)"
    by (simp add: result21_def)
  with many have "secs = map (\<lambda>kv. headerLines (stepKey kv) (snd kv) @ printSection stubReport 1 (stepKey kv) (snd kv))
                     (sort_key stepKey (ResultStepResults result21))"
    and "headerIDs (concat secs) = map stepKey (sort_key stepKey (ResultStepResults result21))"
    by blast+
  then have two: "secs = [headerLines 1 summary1 @ printSection stubReport 1 1 summary1,
               headerLines 2 summary2 @ printSection stubReport 1 2 summary2]"
    "headerIDs (concat secs) = [1, 2]"
    by (simp_all add: s stepKey_def)
  have d1: "distinct (map fst (ResultStepResults result1))"
    by (simp add: result1_def)
  from printDetails_step_header [OF d1, of stubReport] obtain secs1 where
    out1: "printDetails stubReport result1 = Inr (preamble @ concat secs1)"
    and single: "\<forall>k v. ResultStepResults result1 = [(k, v)] \<longrightarrow>
          secs1 = [printSection stubReport 1 (uint k) v]
        \<and> headerIDs (printSection stubReport 1 (uint k) v) = []"
    and scen: "\<forall>sc :: Scenario. length (Steps sc) = 1
          \<and> fst ` set (ResultStepResults result1) \<subseteq> ID ` set (Steps sc) \<longrightarrow>
          headerIDs (concat secs1) = []"
    by blast
  have "length (Steps scenario1) = 1
        \<and> fst ` set (ResultStepResults result1) \<subseteq> ID ` set (Steps scenario1)"
    by (simp add: scenario1_def result1_def)
  with scen have nohdr: "headerIDs (concat secs1) = []"
    by blast
  have "ResultStepResults result1 = [(1, summary1)]"
    by (simp add: result1_def)
  with single have "secs1 = [printSection stubReport 1 (uint (1 :: uint16)) summary1]
        \<and> headerIDs (printSection stubReport 1 (uint (1 :: uint16)) summary1) = []"
    by blast
  with out1 nohdr have one: "printDetails stubReport result1 = Inr (preamble @ printSection stubReport 1 1 summary1)"
    "headerIDs (printSection stubReport 1 1 summary1) = []"
    by simp_all
  from out two one show ?thesis
    by blast
qed

subsection \<open>The debug transcript\<close>

lemma assertHeader_cases:
  "(isHeader x \<and> (\<exists>h. x = Some (IHeader h) \<and> assertHeader x = Inr h \<and> contentTypeOf x = Get_content_type h))
   \<or> (\<not> isHeader x \<and> assertHeader x = Inl TypeAssertion)"
  by (cases x rule: option.exhaust; simp add: assertHeader_def isHeader_def contentTypeOf_def
      split: iface.splits)

lemma printBody_cases:
  "((Contains ct ''application/json'' \<or> isString b) \<and> (\<exists>out. printBody ct b = Inr out))
   \<or> (\<not> (Contains ct ''application/json'' \<or> isString b) \<and> printBody ct b = Inl TypeAssertion)"
  by (cases b; simp add: printBody_def isString_def del: Contains.simps HasPrefix.simps)

lemma printStep_cases:
  "(debugPrecondition (toVerbose sr) sr \<and> (\<exists>out. printStep toVerbose sr = Inr out))
   \<or> (\<not> debugPrecondition (toVerbose sr) sr \<and> printStep toVerbose sr = Inl TypeAssertion)"
proof -
  let ?v = "toVerbose sr"
  let ?req = "DebugInfo sr ''requestHeaders''"
  let ?resp = "DebugInfo sr ''responseHeaders''"
  show ?thesis
  proof (cases "isHeader ?req")
    case False
    then have "assertHeader ?req = Inl TypeAssertion"
      using assertHeader_cases [of ?req] by blast
    with False show ?thesis
      by (simp add: printStep_def debugPrecondition_def Let_def)
  next
    case True
    then obtain h where h: "assertHeader ?req = Inr h" "contentTypeOf ?req = Get_content_type h"
      using assertHeader_cases [of ?req] by blast
    show ?thesis
    proof (cases "Contains (Get_content_type h) ''application/json'' \<or> isString (Request_Body ?v)")
      case False
      then have "printBody (Get_content_type h) (Request_Body ?v) = Inl TypeAssertion"
        using printBody_cases [of "Get_content_type h" "Request_Body ?v"] by blast
      with False h show ?thesis
        by (simp add: printStep_def debugPrecondition_def Let_def del: Contains.simps)
    next
      case reqOK: True
      then obtain b1 where b1: "printBody (Get_content_type h) (Request_Body ?v) = Inr b1"
        using printBody_cases [of "Get_content_type h" "Request_Body ?v"] by blast
      show ?thesis
      proof (cases "Error ?v = []")
        case False
        with True reqOK h b1 show ?thesis
          by (simp add: printStep_def debugPrecondition_def Let_def del: Contains.simps)
      next
        case noErr: True
        show ?thesis
        proof (cases "isHeader ?resp")
          case False
          then have "assertHeader ?resp = Inl TypeAssertion"
            using assertHeader_cases [of ?resp] by blast
          with False noErr h b1 show ?thesis
            by (simp add: printStep_def debugPrecondition_def Let_def del: Contains.simps)
        next
          case respH: True
          then obtain h2 where h2: "assertHeader ?resp = Inr h2"
            "contentTypeOf ?resp = Get_content_type h2"
            using assertHeader_cases [of ?resp] by blast
          show ?thesis
          proof (cases "Contains (Get_content_type h2) ''application/json'' \<or> isString (Response_Body ?v)")
            case False
            then have "printBody (Get_content_type h2) (Response_Body ?v) = Inl TypeAssertion"
              using printBody_cases [of "Get_content_type h2" "Response_Body ?v"] by blast
            with False noErr h b1 h2 show ?thesis
              by (simp add: printStep_def debugPrecondition_def Let_def del: Contains.simps)
          next
            case True
            then obtain b2 where "printBody (Get_content_type h2) (Response_Body ?v) = Inr b2"
              using printBody_cases [of "Get_content_type h2" "Response_Body ?v"] by blast
            with True \<open>isHeader ?req\<close> reqOK respH noErr h b1 h2 show ?thesis
              by (simp add: printStep_def debugPrecondition_def Let_def del: Contains.simps)
          qed
        qed
      qed
    qed
  qed
qed

lemma printSteps_cases:
  "((\<forall>sr \<in> set srs. debugPrecondition (toVerbose sr) sr) \<and> (\<exists>out. printSteps toVerbose srs = Inr out))
   \<or> (\<not> (\<forall>sr \<in> set srs. debugPrecondition (toVerbose sr) sr)
       \<and> printSteps toVerbose srs = Inl TypeAssertion)"
proof (induction srs)
  case Nil
  then show ?case by simp
next
  case (Cons sr srs)
  from printStep_cases [of toVerbose sr] Cons show ?case
    by (elim disjE conjE exE) simp_all
qed

text \<open>
  Claim C10. \<open>printInDebugMode\<close> returns exactly when every StepResult it prints meets
  the precondition, and otherwise it panics with a failed type assertion.
\<close>

theorem printInDebugMode_panics_iff:
  "((\<exists>out. printInDebugMode toVerbose input = Inr out)
      \<longleftrightarrow> (\<forall>r \<in> set input. \<forall>sr \<in> set (StepResults r). debugPrecondition (toVerbose sr) sr))
   \<and> (printInDebugMode toVerbose input = Inl TypeAssertion
      \<longleftrightarrow> \<not> (\<forall>r \<in> set input. \<forall>sr \<in> set (StepResults r). debugPrecondition (toVerbose sr) sr))"
proof -
  have "(\<forall>sr \<in> set (concat (map StepResults input)). debugPrecondition (toVerbose sr) sr)
        \<longleftrightarrow> (\<forall>r \<in> set input. \<forall>sr \<in> set (StepResults r). debugPrecondition (toVerbose sr) sr)"
    by auto
  with printSteps_cases [of "concat (map StepResults input)" toVerbose] show ?thesis
    unfolding printInDebugMode_def by (elim disjE conjE exE) simp_all
qed

lemma Contains_plain: "\<not> Contains ''text/plain'' ''application/json''"
  by simp

lemma Contains_json: "Contains ''application/json; charset=utf-8'' ''application/json''"
  by simp

lemma debug_examples:
  "debugPrecondition (stubVerbose debugGood) debugGood"
  "debugPrecondition (stubVerbose debugErrored) debugErrored"
  "\<not> debugPrecondition (stubVerbose debugNoRequestHeaders) debugNoRequestHeaders"
  "\<not> debugPrecondition (stubVerbose debugNoResponseHeaders) debugNoResponseHeaders"
  "\<not> debugPrecondition (stubVerbose debugBodyNotString) debugBodyNotString"
  by (simp_all add: debugPrecondition_def stubVerbose_def debugGood_def debugErrored_def
      debugNoRequestHeaders_def debugNoResponseHeaders_def debugBodyNotString_def debugStep_def
      isHeader_def isString_def contentTypeOf_def Get_content_type_def plainHeader_def jsonHeader_def
      Contains_plain Contains_json del: Contains.simps)

text \<open>
  Claim C10 at a well-formed run (one step with a response, one that errored) and at
  three violations: no request headers, no response headers on a step without error, and
  a request body that is not a string under content type \<open>text/plain\<close>.
\<close>

theorem printInDebugMode_panics_iff_witness:
  "(\<exists>out. printInDebugMode stubVerbose (debugRun [debugGood, debugErrored]) = Inr out)
   \<and> printInDebugMode stubVerbose (debugRun [debugGood, debugNoRequestHeaders]) = Inl TypeAssertion
   \<and> printInDebugMode stubVerbose (debugRun [debugNoResponseHeaders]) = Inl TypeAssertion
   \<and> printInDebugMode stubVerbose (debugRun [debugBodyNotString]) = Inl TypeAssertion"
  using printInDebugMode_panics_iff [of stubVerbose "debugRun [debugGood, debugErrored]"]
    printInDebugMode_panics_iff [of stubVerbose "debugRun [debugGood, debugNoRequestHeaders]"]
    printInDebugMode_panics_iff [of stubVerbose "debugRun [debugNoResponseHeaders]"]
    printInDebugMode_panics_iff [of stubVerbose "debugRun [debugBodyNotString]"]
  by (simp add: debugRun_def debug_examples)

end
